theory Spec2Isabelle
  imports Main
begin

section \<open>The model\<close>

subsection \<open>tags.go: splitting a tag list into fields\<close>

text \<open>
  Go strings are byte sequences; a \<^typ>\<open>string\<close> is the list of its bytes.
  \<^verbatim>\<open>isSpaceByte\<close> is the last function of tags.go; \<open>isQuoteByte\<close> holds of the
  two bytes that \<^verbatim>\<open>splitQuotedFields\<close> takes for quotes, the double and the single
  quote.
\<close>

definition isSpaceByte :: "char \<Rightarrow> bool" where
  "isSpaceByte c \<longleftrightarrow> c = CHR '' '' \<or> c = CHR 0x09 \<or> c = CHR 0x0A \<or> c = CHR 0x0D"

definition isQuoteByte :: "char \<Rightarrow> bool" where
  "isQuoteByte c \<longleftrightarrow> c = CHR 0x22 \<or> c = CHR 0x27"

text \<open>
  The only error of \<^verbatim>\<open>splitQuotedFields\<close> is
  \<^verbatim>\<open>fmt.Errorf("unterminated %c string", quote)\<close>; it is kept as a value that
  carries the quote byte.
\<close>

datatype split_error = Unterminated char

text \<open>
  The outer \<^verbatim>\<open>for len(s) > 0\<close> loop of \<^verbatim>\<open>splitQuotedFields\<close>, with the
  slice \<^verbatim>\<open>f\<close> of fields found so far and the rest \<^verbatim>\<open>s\<close> of the input as
  its state. The three inner index loops are \<^const>\<open>dropWhile\<close> (skip white space) and
  the length of a \<^const>\<open>takeWhile\<close> (the index \<^verbatim>\<open>i\<close> of the closing quote, or
  of the next white space). On an unterminated quote the Go code returns a nil
  slice with the error, so the fields found so far are dropped.
\<close>

function splitLoop :: "string list \<Rightarrow> string \<Rightarrow> split_error + string list" where
  "splitLoop f s =
     (let s1 = dropWhile isSpaceByte s in
      case s1 of
        [] \<Rightarrow> Inr f
      | c # s2 \<Rightarrow>
          if c = CHR 0x22 \<or> c = CHR 0x27 then
            (let i = length (takeWhile (\<lambda>d. d \<noteq> c) s2) in
             if i \<ge> length s2 then Inl (Unterminated c)
             else splitLoop (f @ [take i s2]) (drop (i + 1) s2))
          else
            (let i = length (takeWhile (\<lambda>d. \<not> isSpaceByte d) s1) in
             splitLoop (f @ [take i s1]) (drop i s1)))"
  by pat_completeness auto
termination
proof (relation "measure (\<lambda>(f, s). length s)")
  show "wf (measure (\<lambda>(f, s). length s))" by simp
next
  fix f s s1 c s2 i
  assume "s1 = dropWhile isSpaceByte s" "s1 = c # s2"
  then have "length s2 < length s"
    by (metis length_dropWhile_le length_Cons less_Suc_eq_le less_le_trans lessI not_less)
  then show "((f @ [take i s2], drop (i + 1) s2), (f, s)) \<in> measure (\<lambda>(f, s). length s)"
    by simp
next
  fix f s s1 c s2 i
  assume a: "s1 = dropWhile isSpaceByte s" "s1 = c # s2" "\<not> (c = CHR 0x22 \<or> c = CHR 0x27)"
    "i = length (takeWhile (\<lambda>d. \<not> isSpaceByte d) s1)"
  have "\<not> isSpaceByte c" using a(1,2) by (metis hd_dropWhile list.distinct(1) list.sel(1))
  then have "i > 0" using a(2,4) by simp
  moreover have "length s1 \<le> length s" using a(1) by (simp add: length_dropWhile_le)
  moreover have "s1 \<noteq> []" using a(2) by simp
  ultimately show "((f @ [take i s1], drop i s1), (f, s)) \<in> measure (\<lambda>(f, s). length s)"
    by (cases s1) auto
qed

definition splitQuotedFields :: "string \<Rightarrow> split_error + string list" where
  "splitQuotedFields s = splitLoop [] s"


text \<open>
  The fields of an input, as a grammar rather than as loops. White space before a
  field is skipped. A field that starts with a quote byte runs to the next
  occurrence of the same byte and is returned without the two quotes; what follows
  the closing quote is the rest of the input, with or without white space in front
  (rule \<open>quoted\<close> asks nothing of \<open>rest\<close>), so a field can start right after a
  closing quote. Any other field is a maximal run of bytes that are not white space
  (a quote further inside it does not count), and ends at white space or at the end
  of the input. A quote that opens a field and does not occur again is the error.
\<close>

fun cons_field :: "string \<Rightarrow> split_error + string list \<Rightarrow> split_error + string list" where
  "cons_field w (Inl e) = Inl e"
| "cons_field w (Inr fs) = Inr (w # fs)"

inductive fields_of :: "string \<Rightarrow> split_error + string list \<Rightarrow> bool" where
  blank: "\<forall>c\<in>set s. isSpaceByte c \<Longrightarrow> fields_of s (Inr [])"
| bare: "\<lbrakk>\<forall>c\<in>set ws. isSpaceByte c; \<forall>c\<in>set (a # w). \<not> isSpaceByte c; \<not> isQuoteByte a;
          rest = [] \<or> isSpaceByte (hd rest); fields_of rest r\<rbrakk>
         \<Longrightarrow> fields_of (ws @ (a # w) @ rest) (cons_field (a # w) r)"
| quoted: "\<lbrakk>\<forall>c\<in>set ws. isSpaceByte c; isQuoteByte q; q \<notin> set w; fields_of rest r\<rbrakk>
         \<Longrightarrow> fields_of (ws @ q # w @ q # rest) (cons_field w r)"
| unterminated: "\<lbrakk>\<forall>c\<in>set ws. isSpaceByte c; isQuoteByte q; q \<notin> set w\<rbrakk>
         \<Longrightarrow> fields_of (ws @ q # w) (Inl (Unterminated q))"

subsection \<open>govers.go: the canonical form of a package path\<close>

text \<open>
  \<^verbatim>\<open>canonicalPath\<close> is \<^verbatim>\<open>versPat.ReplaceAllString(p, "0")\<close> with
  \<^verbatim>\<open>versPat = regexp.MustCompile("/v[0-9]+/")\<close>. The regular expression is a fixed
  one, so its matcher is written out: at a position of the input it matches a slash,
  the letter v, one or more decimal digits and a slash. The digits are matched
  greedily, and giving one back cannot help, since a digit is not a slash.
  \<^verbatim>\<open>ReplaceAllString\<close> replaces the matches from left to right and looks for the
  next match after the end of the previous one.
\<close>

definition isDigit :: "char \<Rightarrow> bool" where
  "isDigit c \<longleftrightarrow> c \<in> set ''0123456789''"

definition match_slash_version :: "string \<Rightarrow> string option" where
  "match_slash_version s =
     (case s of
        a # b # t \<Rightarrow>
          if a = CHR ''/'' \<and> b = CHR ''v'' then
            (case dropWhile isDigit t of
               [] \<Rightarrow> None
             | c # r \<Rightarrow> if takeWhile isDigit t \<noteq> [] \<and> c = CHR ''/'' then Some r else None)
          else None
      | _ \<Rightarrow> None)"

lemma match_slash_version_shorter: "match_slash_version s = Some r \<Longrightarrow> length r < length s"
proof -
  assume a: "match_slash_version s = Some r"
  then obtain x y t where s: "s = x # y # t"
    by (cases s; cases "tl s") (auto simp: match_slash_version_def)
  from a s obtain c where "dropWhile isDigit t = c # r"
    by (auto simp: match_slash_version_def split: if_splits list.splits)
  then have "length r < length t"
    using length_dropWhile_le[of isDigit t] by simp
  then show ?thesis using s by simp
qed

function canonicalPath :: "string \<Rightarrow> string" where
  "canonicalPath [] = []"
| "canonicalPath (c # t) =
     (case match_slash_version (c # t) of
        Some r \<Rightarrow> CHR ''0'' # canonicalPath r
      | None \<Rightarrow> c # canonicalPath t)"
  by pat_completeness auto
termination
  by (relation "measure length") (auto dest: match_slash_version_shorter)


subsection \<open>Source files\<close>

text \<open>
  \<^verbatim>\<open>go/parser\<close> and \<^verbatim>\<open>go/printer\<close> are not part of the program. Of the syntax tree
  of a file the program reads and writes the import specifications only
  (\<^verbatim>\<open>f.Imports\<close>, each with the literal \<^verbatim>\<open>ispec.Path.Value\<close>); everything else
  of the tree is the field \<open>other\<close>, which no function of the model looks into. An
  import literal either unquotes to a path (\<^verbatim>\<open>strconv.Unquote\<close> succeeds) or is
  malformed; \<^verbatim>\<open>strconv.Quote p\<close> is the literal \<open>Quoted p\<close>.
\<close>

datatype importLit = Quoted string | Malformed string

fun Unquote :: "importLit \<Rightarrow> string option" where
  "Unquote (Quoted s) = Some s"
| "Unquote (Malformed t) = None"

record gofile =
  ImportSpecs :: "importLit list"
  other :: string

text \<open>
  A file is described by what \<^verbatim>\<open>parser.ParseFile\<close> and \<^verbatim>\<open>os.Create\<close> do at its
  path: a file that cannot be read has no syntax tree (\<^verbatim>\<open>ParseFile\<close> returns nil
  and an error); any other file has a tree and can be created for writing or not.
  When the parser reports errors (\<open>syntax_errors\<close>: the error is not nil) the tree
  is partial: it holds what the parser could make of the source, and the text that
  the parser rejected is not in it. A file that parses without error is described
  by its tree alone, so it is not told apart from the print of that tree, which is
  what the round trip through parser and printer makes of it. An error of the
  printer or of the final flush on a file that was created is not modelled.
\<close>

datatype srcfile = Unreadable | Source (ast: gofile) (syntax_errors: bool) (creatable: bool)

text \<open>
  Run-time panics: \<^verbatim>\<open>panic(err)\<close> after a failed \<^verbatim>\<open>strconv.Unquote\<close>, the nil
  dereference \<^verbatim>\<open>f.Imports\<close> when the parser returned no tree, and a regular
  expression that \<^verbatim>\<open>regexp.MustCompile\<close> rejects. A panic ends the program with
  exit status 2; what the Go run time prints about it is not part of the standard
  error of the model.
\<close>

datatype panic = UnquoteFailed string | NilDereference | MustCompileFailed string

text \<open>
  The lines written to standard error by \<^verbatim>\<open>logf\<close>, \<^verbatim>\<open>fatalf\<close> and
  \<^verbatim>\<open>flag.Usage\<close>, one constructor for each format string, with the arguments of
  the format.
\<close>

datatype logmsg =
    CannotReadDir string
  | CannotImport string
  | Uses string string
  | CannotParse string
  | CannotCreate
  | CannotWrite
  | CannotImportFrom string string
  | Inconsistent string string
  | NotVersioned string
  | InvalidMatch
  | CannotGetwd
  | Usage

subsection \<open>Packages and the build context\<close>

record editPkg =
  goFiles :: "string list"
  needsEdit :: bool

text \<open>
  \<^verbatim>\<open>go/build\<close> is not part of the program either. A \<open>bpkg\<close> has the fields of a
  \<^verbatim>\<open>build.Package\<close> that the program reads. The build context is a parameter:
  \<open>Import b path srcDir\<close> is \<^verbatim>\<open>buildCtxt.Import(path, srcDir, 0)\<close>, which always
  returns a package and maybe an error, and \<open>ImportFindOnly b dir\<close> is the import
  path found by \<^verbatim>\<open>buildCtxt.Import(".", dir, build.FindOnly)\<close>, if the directory
  corresponds to a package.
\<close>

record bpkg =
  ImportPath :: string
  Dir :: string
  Imports :: "string list"
  TestImports :: "string list"
  XTestImports :: "string list"

datatype import_error = NoGoError | OtherImportError

record buildctx =
  Import :: "string \<Rightarrow> string \<Rightarrow> bpkg \<times> import_error option"
  ImportFindOnly :: "string \<Rightarrow> string option"

text \<open>
  A compiled pattern of the two later revisions. Every pattern they compile has the
  form \<^verbatim>\<open>^(...)\<close> followed by something, so
  \<^verbatim>\<open>FindStringSubmatchIndex(p)\<close> is nil or a slice \<^verbatim>\<open>loc\<close> of at least four
  indices in which \<^verbatim>\<open>loc[2]\<close> is 0 and \<^verbatim>\<open>loc[3]\<close>, at most the length of
  \<^verbatim>\<open>p\<close>, is the end of the text matched by the first group. A pattern is
  represented by the function that gives \<^verbatim>\<open>loc[3]\<close>, the only index the program
  reads.
\<close>

type_synonym regexp = "string \<Rightarrow> nat option"

text \<open>
  The struct \<^verbatim>\<open>context\<close>, one record for the three revisions of the program:
  \<open>fixPackageCanon\<close> is a field of govers.go only, \<open>fixPackagePat\<close> of the two
  later revisions only (the last one calls the two fields \<^verbatim>\<open>newPackage\<close> and
  \<^verbatim>\<open>oldPackagePat\<close>). The map \<^verbatim>\<open>checked\<close> is only ever set to true, so it is the
  set of its keys. The build context is passed to the functions instead of being a
  field. The last four fields are the effects of a run: the lines on standard error
  and on standard output, the paths given to \<^verbatim>\<open>buildCtxt.Import\<close> with mode 0, in
  the order of the calls, and the source files on disk.
\<close>

record ctxt =
  cwd :: string
  failed :: bool
  fixPackage :: string
  fixPackageCanon :: string
  fixPackagePat :: regexp
  checked :: "string set"
  editPkgs :: "string \<rightharpoonup> editPkg"
  stderr :: "logmsg list"
  stdout :: "string list"
  imported :: "string list"
  files :: "string \<Rightarrow> srcfile"

definition logf :: "logmsg \<Rightarrow> ctxt \<Rightarrow> ctxt" where
  "logf m s = s\<lparr>stderr := stderr s @ [m]\<rparr>"

subsection \<open>govers.go: changeVersion\<close>

text \<open>
  The loop over \<^verbatim>\<open>f.Imports\<close> with the flag \<^verbatim>\<open>changed\<close>. It returns the new
  literals, or the panic of the first literal that does not unquote.
\<close>

fun fixImports :: "ctxt \<Rightarrow> importLit list \<Rightarrow> bool \<Rightarrow> panic + importLit list \<times> bool" where
  "fixImports s [] changed = Inr ([], changed)"
| "fixImports s (v # vs) changed =
     (case Unquote v of
        None \<Rightarrow> Inl (UnquoteFailed (case v of Malformed t \<Rightarrow> t | Quoted t \<Rightarrow> t))
      | Some impPath \<Rightarrow>
          if canonicalPath impPath = fixPackageCanon s then
            (case fixImports s vs True of
               Inl e \<Rightarrow> Inl e
             | Inr (vs', c) \<Rightarrow> Inr (Quoted (fixPackage s) # vs', c))
          else
            (case fixImports s vs changed of
               Inl e \<Rightarrow> Inl e
             | Inr (vs', c) \<Rightarrow> Inr (v # vs', c)))"

text \<open>
  The end of \<^verbatim>\<open>changeVersion\<close>, from \<^verbatim>\<open>os.Create\<close> on. \<^verbatim>\<open>os.Create\<close> truncates
  the file and \<^verbatim>\<open>printConfig.Fprint\<close> writes the tree \<^verbatim>\<open>f\<close>, so the new file
  holds what the tree holds and nothing else: it is the file that parses to this
  tree with no error. For a tree that the parser returned with an error, the text
  that the parser rejected is gone with the old contents. When the file cannot be
  created the error is logged, \<^verbatim>\<open>out\<close> is nil, and flushing the buffered writer
  fails in turn (a tree that prints to more than the buffer logs the second line
  twice); the file on disk stays as it was.
\<close>

definition writeFile :: "string \<Rightarrow> gofile \<Rightarrow> ctxt \<Rightarrow> ctxt" where
  "writeFile path f s =
     (case files s path of
        Source f0 e True \<Rightarrow> s\<lparr>files := (files s)(path := Source f False True)\<rparr>
      | _ \<Rightarrow> logf CannotWrite (logf CannotCreate s))"

text \<open>
  \<^verbatim>\<open>changeVersion\<close> returns whether it changed an import, or panics. A parse error
  is logged and there is no return after it: the function goes on with the partial
  tree it got, and writes that tree when one of its imports matches.
\<close>

definition changeVersion :: "string \<Rightarrow> ctxt \<Rightarrow> (panic + bool) \<times> ctxt" where
  "changeVersion path s =
     (case files s path of
        Unreadable \<Rightarrow> (Inl NilDereference, logf (CannotParse path) s)
      | Source f err cr \<Rightarrow>
          (let s1 = (if err then logf (CannotParse path) s else s) in
           case fixImports s1 (ImportSpecs f) False of
             Inl e \<Rightarrow> (Inl e, s1)
           | Inr (vs, changed) \<Rightarrow>
               if \<not> changed then (Inr False, s1)
               else (Inr True, writeFile path (f\<lparr>ImportSpecs := vs\<rparr>) s1)))"

subsection \<open>govers.go: checkPackage\<close>

text \<open>
  \<^verbatim>\<open>checkPackage\<close> calls itself inside its loop over \<^verbatim>\<open>pkg.Imports\<close>, and nothing
  in the code bounds the depth of the recursion. The first argument after the build
  context is fuel for that depth: the result is \<open>None\<close> when the recursion goes
  deeper. \<open>checkImports\<close> is the loop, at the depth of the call it belongs to.
\<close>

fun checkPackage :: "buildctx \<Rightarrow> nat \<Rightarrow> string \<Rightarrow> ctxt \<Rightarrow> ctxt option"
and checkImports :: "buildctx \<Rightarrow> nat \<Rightarrow> string \<Rightarrow> string list \<Rightarrow> ctxt \<Rightarrow> ctxt option" where
  "checkPackage b 0 path s = None"
| "checkPackage b (Suc n) path s =
     (if path \<in> checked s then Some s
      else
        (case Import b path ''.'' of
           (pkg, err) \<Rightarrow>
             (let s1 = s\<lparr>imported := imported s @ [path],
                         checked := insert (ImportPath pkg) (checked s)\<rparr> in
              case err of
                Some e \<Rightarrow> Some (if e = NoGoError then s1 else logf (CannotImport path) s1)
              | None \<Rightarrow> checkImports b n path (Imports pkg) s1)))"
| "checkImports b n path [] s = Some s"
| "checkImports b n path (impPath # imps) s =
     (if impPath = ''C'' then checkImports b n path imps s
      else if canonicalPath impPath = fixPackageCanon s \<and> impPath \<noteq> fixPackage s then
        (case editPkgs s path of
           Some ep \<Rightarrow>
             (case checkPackage b n (fixPackage s)
                     (s\<lparr>editPkgs := (editPkgs s)(path \<mapsto> ep\<lparr>needsEdit := True\<rparr>)\<rparr>) of
                None \<Rightarrow> None
              | Some s' \<Rightarrow> checkImports b n path imps s')
         | None \<Rightarrow> checkImports b n path imps (logf (Uses path impPath) (s\<lparr>failed := True\<rparr>)))
      else
        (case checkPackage b n impPath s of
           None \<Rightarrow> None
         | Some s' \<Rightarrow> checkImports b n path imps s'))"

subsection \<open>walkDir\<close>

text \<open>
  The directory tree below the working directory: what \<^verbatim>\<open>ioutil.ReadDir\<close> returns
  at a path is the list of the entries with their names, in the order of the names,
  or an error (\<open>DirNode None\<close>; reading a path that is not a directory is an error
  too). \<^verbatim>\<open>ReadDir\<close> does not follow symbolic links, so the entries that are
  directories form a finite tree. \<open>Join\<close> is \<^verbatim>\<open>filepath.Join\<close> on a clean
  directory path and the name of one of its entries.
\<close>

datatype fsnode = FileNode | DirNode "(string \<times> fsnode) list option"

definition Join :: "string \<Rightarrow> string \<Rightarrow> string" where
  "Join dir name = (if dir = ''/'' then dir @ name else dir @ ''/'' @ name)"

definition HasPrefix :: "string \<Rightarrow> string \<Rightarrow> bool" where
  "HasPrefix s p \<longleftrightarrow> take (length p) s = p"

definition HasSuffix :: "string \<Rightarrow> string \<Rightarrow> bool" where
  "HasSuffix s p \<longleftrightarrow> length p \<le> length s \<and> drop (length s - length p) s = p"

text \<open>
  \<^verbatim>\<open>walkDir\<close> is the same function in the three revisions. \<open>walkEntries\<close> is its
  loop over the entries, with the local variable \<^verbatim>\<open>ep\<close>.
\<close>

fun walkDir :: "buildctx \<Rightarrow> string \<Rightarrow> fsnode \<Rightarrow> ctxt \<Rightarrow> ctxt"
and walkEntries :: "buildctx \<Rightarrow> string \<Rightarrow> (string \<times> fsnode) list \<Rightarrow> editPkg \<Rightarrow> ctxt \<Rightarrow> editPkg \<times> ctxt" where
  "walkDir b path FileNode s = logf (CannotReadDir path) s"
| "walkDir b path (DirNode None) s = logf (CannotReadDir path) s"
| "walkDir b path (DirNode (Some entries)) s =
     (case walkEntries b path entries \<lparr>goFiles = [], needsEdit = False\<rparr> s of
        (ep, s') \<Rightarrow>
          (case ImportFindOnly b path of
             None \<Rightarrow> s'
           | Some ip \<Rightarrow> s'\<lparr>editPkgs := (editPkgs s')(ip \<mapsto> ep)\<rparr>))"
| "walkEntries b path [] ep s = (ep, s)"
| "walkEntries b path ((name, FileNode) # es) ep s =
     (if HasSuffix name ''.go''
      then walkEntries b path es (ep\<lparr>goFiles := goFiles ep @ [Join path name]\<rparr>) s
      else walkEntries b path es ep s)"
| "walkEntries b path ((name, DirNode d) # es) ep s =
     (if \<not> HasPrefix name ''.''
      then walkEntries b path es ep (walkDir b (Join path name) (DirNode d) s)
      else walkEntries b path es ep s)"


subsection \<open>govers.go: main\<close>

text \<open>
  The two loops of \<^verbatim>\<open>main\<close> over the map \<^verbatim>\<open>ctxt.editPkgs\<close>. Go does not fix the
  order in which \<^verbatim>\<open>range\<close> visits the keys of a map, so each loop is given the
  list of keys in the order of its visit. \<open>changeFiles\<close> is the inner loop over
  \<^verbatim>\<open>ep.goFiles\<close>.
\<close>

fun checkAll :: "buildctx \<Rightarrow> nat \<Rightarrow> string list \<Rightarrow> ctxt \<Rightarrow> ctxt option" where
  "checkAll b n [] s = Some s"
| "checkAll b n (path # ps) s =
     (case checkPackage b n path s of
        None \<Rightarrow> None
      | Some s' \<Rightarrow> checkAll b n ps s')"

fun changeFiles :: "string list \<Rightarrow> bool \<Rightarrow> ctxt \<Rightarrow> (panic + bool) \<times> ctxt" where
  "changeFiles [] changed s = (Inr changed, s)"
| "changeFiles (file # fs) changed s =
     (case changeVersion file s of
        (Inl e, s') \<Rightarrow> (Inl e, s')
      | (Inr c, s') \<Rightarrow> changeFiles fs (c \<or> changed) s')"

fun rewriteAll :: "string list \<Rightarrow> ctxt \<Rightarrow> panic option \<times> ctxt" where
  "rewriteAll [] s = (None, s)"
| "rewriteAll (path # ps) s =
     (case editPkgs s path of
        None \<Rightarrow> rewriteAll ps s
      | Some ep \<Rightarrow>
          if \<not> needsEdit ep then rewriteAll ps s
          else
            (case changeFiles (goFiles ep) False s of
               (Inl e, s') \<Rightarrow> (Some e, s')
             | (Inr changed, s') \<Rightarrow>
                 rewriteAll ps (if changed then s'\<lparr>stdout := stdout s' @ [path]\<rparr> else s')))"

text \<open>
  What a run of the program depends on: the arguments left after flag parsing, the
  result of \<^verbatim>\<open>os.Getwd\<close>, the directory tree at the working directory, the source
  files, the build context, and the orders of the two map traversals. The remaining
  fields are read by the last revision only: the values of the flags
  \<^verbatim>\<open>-m\<close>, \<^verbatim>\<open>-n\<close> and \<^verbatim>\<open>-d\<close>, and \<^verbatim>\<open>regexp.Compile\<close> on the pattern it makes from
  the value of \<^verbatim>\<open>-m\<close>.
\<close>

record env =
  args :: "string list"
  getwd :: "string option"
  tree :: fsnode
  disk :: "string \<Rightarrow> srcfile"
  build :: buildctx
  order1 :: "string list"
  order2 :: "string list"
  match :: string
  noEdit :: bool
  noDependencies :: bool
  Compile :: "string \<Rightarrow> regexp option"

text \<open>
  \<^verbatim>\<open>main\<close> returns the exit status and the final state, or \<open>None\<close> when the
  dependency check needs more fuel. \<open>init\<close> is the state before the context is
  filled in. In govers.go the test of \<^verbatim>\<open>ctxt.failed\<close> between the two loops is
  commented out, so the model has none there.
\<close>

definition init :: "env \<Rightarrow> ctxt" where
  "init e =
     \<lparr>cwd = (case getwd e of Some d \<Rightarrow> d | None \<Rightarrow> []), failed = False,
      fixPackage = [], fixPackageCanon = [], fixPackagePat = (\<lambda>p. None),
      checked = {}, editPkgs = Map.empty,
      stderr = [], stdout = [], imported = [], files = disk e\<rparr>"

definition main :: "env \<Rightarrow> nat \<Rightarrow> (nat \<times> ctxt) option" where
  "main e fuel =
     (case args e of
        [arg] \<Rightarrow>
          (case getwd e of
             None \<Rightarrow> Some (2, logf CannotGetwd (init e))
           | Some dir \<Rightarrow>
               (let s0 = (init e)\<lparr>fixPackage := arg, fixPackageCanon := canonicalPath arg\<rparr>;
                    s1 = walkDir (build e) dir (tree e) s0 in
                case checkAll (build e) fuel (order1 e) s1 of
                  None \<Rightarrow> None
                | Some s2 \<Rightarrow>
                    (case rewriteAll (order2 e) s2 of
                       (Some p, s3) \<Rightarrow> Some (2, s3)
                     | (None, s3) \<Rightarrow> Some (if failed s3 then 1 else 0, s3))))
      | _ \<Rightarrow> Some (2, logf Usage (init e)))"

subsection \<open>Vocabulary of the properties of changeVersion\<close>

text \<open>
  What govers.go does to one import literal, as a function of its own: a literal
  whose path has the canonical form of the new package path becomes the literal of
  the new package path, any other literal stays. \<open>matchesCanon\<close> is the test, and
  \<open>wellQuoted\<close> holds of the literals that unquote.
\<close>

fun fixImport :: "ctxt \<Rightarrow> importLit \<Rightarrow> importLit" where
  "fixImport s (Quoted p) = (if canonicalPath p = fixPackageCanon s then Quoted (fixPackage s) else Quoted p)"
| "fixImport s (Malformed t) = Malformed t"

fun matchesCanon :: "ctxt \<Rightarrow> importLit \<Rightarrow> bool" where
  "matchesCanon s (Quoted p) \<longleftrightarrow> canonicalPath p = fixPackageCanon s"
| "matchesCanon s (Malformed t) \<longleftrightarrow> False"

fun wellQuoted :: "importLit \<Rightarrow> bool" where
  "wellQuoted (Quoted p) \<longleftrightarrow> True"
| "wellQuoted (Malformed t) \<longleftrightarrow> False"

subsection \<open>A small run\<close>

text \<open>
  A working directory \<^verbatim>\<open>/w\<close> with one package \<^verbatim>\<open>m/a\<close> of three source files. The
  package imports version 1 of \<^verbatim>\<open>x/v1/y\<close>, one of its subpackages, and the package
  \<^verbatim>\<open>dep\<close>, which imports version 1 as well and lies outside the working
  directory. The program is run with the argument \<^verbatim>\<open>x/v2/y\<close>.
\<close>

definition ex_pkg :: "string \<Rightarrow> string list \<Rightarrow> bpkg \<times> import_error option" where
  "ex_pkg p ps =
     (\<lparr>ImportPath = p, Dir = ''/src/'' @ p, Imports = ps, TestImports = [], XTestImports = []\<rparr>, None)"

definition ex_build :: buildctx where
  "ex_build =
     \<lparr>Import = (\<lambda>p d.
        if p = ''m/a'' then ex_pkg p [''x/v1/y'', ''x/v1/y/sub'', ''dep'']
        else if p = ''dep'' then ex_pkg p [''x/v1/y'']
        else if p = ''x/v2/y'' then ex_pkg p []
        else if p = ''x/v1/y/sub'' then ex_pkg p []
        else (\<lparr>ImportPath = p, Dir = [], Imports = [], TestImports = [], XTestImports = []\<rparr>,
              Some OtherImportError)),
      ImportFindOnly = (\<lambda>d. if d = ''/w/a'' then Some ''m/a'' else None)\<rparr>"

definition ex_disk :: "string \<Rightarrow> srcfile" where
  "ex_disk p =
     (if p = ''/w/a/f.go'' then
        Source \<lparr>ImportSpecs = [Quoted ''x/v1/y'', Quoted ''dep''], other = ''package a; F''\<rparr> False True
      else if p = ''/w/a/g.go'' then
        Source \<lparr>ImportSpecs = [Quoted ''x/v1/y/sub''], other = ''package a; G''\<rparr> False True
      else if p = ''/w/a/h.go'' then
        Source \<lparr>ImportSpecs = [Quoted ''fmt''], other = ''package a; H''\<rparr> False True
      else Unreadable)"

definition ex_env :: env where
  "ex_env =
     \<lparr>args = [''x/v2/y''], getwd = Some ''/w'',
      tree = DirNode (Some [(''a'', DirNode (Some
               [(''f.go'', FileNode), (''g.go'', FileNode), (''h.go'', FileNode)]))]),
      disk = ex_disk, build = ex_build, order1 = [''m/a''], order2 = [''m/a''],
      match = [], noEdit = False, noDependencies = False, Compile = (\<lambda>p. None)\<rparr>"

definition ex_ctxt :: ctxt where
  "ex_ctxt = (init ex_env)\<lparr>fixPackage := ''x/v2/y'', fixPackageCanon := canonicalPath ''x/v2/y''\<rparr>"




subsection \<open>The later revisions: fixPath\<close>

text \<open>
  \<^verbatim>\<open>fixPath\<close> is the same function in the two revisions under src/unnamed, up to
  the names of the fields. With \<^verbatim>\<open>i = loc[3]\<close> the end of the first group, which
  starts at 0, \<^verbatim>\<open>p[0:i]\<close> is \<open>take i p\<close> and \<^verbatim>\<open>p[i:]\<close> is \<open>drop i p\<close>.
\<close>

definition fixPath :: "ctxt \<Rightarrow> string \<Rightarrow> string" where
  "fixPath s p =
     (case fixPackagePat s p of
        None \<Rightarrow> p
      | Some i \<Rightarrow> if take i p \<noteq> fixPackage s then fixPackage s @ drop i p else p)"

subsection \<open>The revision with pathPat (under src/unnamed)\<close>

text \<open>
  \<^verbatim>\<open>pathPat\<close> starts with \<^verbatim>\<open>regexp.MustCompile(versPat + "(/|$)")\<close>, where
  \<^verbatim>\<open>versPat\<close> is the constant \<^verbatim>\<open>/v([0-9.)]+\<close>. In that expression the parenthesis
  after \<^verbatim>\<open>/v\<close> opens a group, the next closing parenthesis stands inside the
  bracket expression and is a member of the class, and the only other closing
  parenthesis closes the group \<^verbatim>\<open>(/|$)\<close>: the first group is never closed, the
  expression does not compile, and \<^verbatim>\<open>MustCompile\<close> panics, whatever the argument
  of \<^verbatim>\<open>pathPat\<close>.
\<close>

definition versPat_pp :: string where
  "versPat_pp = ''/v([0-9.)]+''"

definition pathPat :: "string \<Rightarrow> panic + regexp" where
  "pathPat p = Inl (MustCompileFailed (versPat_pp @ ''(/|$)''))"

text \<open>
  \<^verbatim>\<open>checkPackage\<close> of this revision, with fuel for the depth of the recursion as
  before. The pointer \<^verbatim>\<open>ep\<close> read before the loop is the entry of \<^verbatim>\<open>path\<close> in
  \<^verbatim>\<open>editPkgs\<close>; no entry is added or replaced during the check, so the loop reads
  the entry where the code follows the pointer.
\<close>

fun checkPackage_pp :: "buildctx \<Rightarrow> nat \<Rightarrow> string \<Rightarrow> ctxt \<Rightarrow> ctxt option"
and checkImports_pp :: "buildctx \<Rightarrow> nat \<Rightarrow> string \<Rightarrow> string list \<Rightarrow> ctxt \<Rightarrow> ctxt option" where
  "checkPackage_pp b 0 path s = None"
| "checkPackage_pp b (Suc n) path s =
     (if path = ''C'' then Some s
      else if path \<in> checked s then Some s
      else
        (case Import b path ''.'' of
           (pkg, err) \<Rightarrow>
             (let s1 = s\<lparr>imported := imported s @ [path],
                         checked := insert (ImportPath pkg) (checked s)\<rparr> in
              case err of
                Some e \<Rightarrow> Some (if e = NoGoError then s1 else logf (CannotImport path) s1)
              | None \<Rightarrow> checkImports_pp b n path (Imports pkg) s1)))"
| "checkImports_pp b n path [] s = Some s"
| "checkImports_pp b n path (impPath # imps) s =
     (if fixPath s impPath \<noteq> impPath then
        (case editPkgs s path of
           None \<Rightarrow> checkImports_pp b n path imps (logf (Uses path impPath) (s\<lparr>failed := True\<rparr>))
         | Some ep \<Rightarrow>
             (case checkPackage_pp b n (fixPath s impPath)
                     (s\<lparr>editPkgs := (editPkgs s)(path \<mapsto> ep\<lparr>needsEdit := True\<rparr>)\<rparr>) of
                None \<Rightarrow> None
              | Some s' \<Rightarrow> checkImports_pp b n path imps s'))
      else
        (case checkPackage_pp b n impPath s of
           None \<Rightarrow> None
         | Some s' \<Rightarrow> checkImports_pp b n path imps s'))"

text \<open>
  \<^verbatim>\<open>changeVersion\<close> of the two later revisions. The last one returns before it
  creates the file when \<^verbatim>\<open>-n\<close> is given; the flag is the first argument, and the
  revision with \<^verbatim>\<open>pathPat\<close>, which has no flags, is the case \<open>False\<close>.
\<close>

fun fixImports_pv :: "ctxt \<Rightarrow> importLit list \<Rightarrow> bool \<Rightarrow> panic + importLit list \<times> bool" where
  "fixImports_pv s [] changed = Inr ([], changed)"
| "fixImports_pv s (v # vs) changed =
     (case Unquote v of
        None \<Rightarrow> Inl (UnquoteFailed (case v of Malformed t \<Rightarrow> t | Quoted t \<Rightarrow> t))
      | Some impPath \<Rightarrow>
          if fixPath s impPath \<noteq> impPath then
            (case fixImports_pv s vs True of
               Inl e \<Rightarrow> Inl e
             | Inr (vs', c) \<Rightarrow> Inr (Quoted (fixPath s impPath) # vs', c))
          else
            (case fixImports_pv s vs changed of
               Inl e \<Rightarrow> Inl e
             | Inr (vs', c) \<Rightarrow> Inr (v # vs', c)))"

definition changeVersion_pv :: "bool \<Rightarrow> string \<Rightarrow> ctxt \<Rightarrow> (panic + bool) \<times> ctxt" where
  "changeVersion_pv dry path s =
     (case files s path of
        Unreadable \<Rightarrow> (Inl NilDereference, logf (CannotParse path) s)
      | Source f err cr \<Rightarrow>
          (let s1 = (if err then logf (CannotParse path) s else s) in
           case fixImports_pv s1 (ImportSpecs f) False of
             Inl e \<Rightarrow> (Inl e, s1)
           | Inr (vs, changed) \<Rightarrow>
               if \<not> changed \<or> dry then (Inr changed, s1)
               else (Inr True, writeFile path (f\<lparr>ImportSpecs := vs\<rparr>) s1)))"

definition changeVersion_pp :: "string \<Rightarrow> ctxt \<Rightarrow> (panic + bool) \<times> ctxt" where
  "changeVersion_pp path s = changeVersion_pv False path s"

fun checkAll_pp :: "buildctx \<Rightarrow> nat \<Rightarrow> string list \<Rightarrow> ctxt \<Rightarrow> ctxt option" where
  "checkAll_pp b n [] s = Some s"
| "checkAll_pp b n (path # ps) s =
     (case checkPackage_pp b n path s of
        None \<Rightarrow> None
      | Some s' \<Rightarrow> checkAll_pp b n ps s')"

fun changeFiles_pv :: "bool \<Rightarrow> string list \<Rightarrow> bool \<Rightarrow> ctxt \<Rightarrow> (panic + bool) \<times> ctxt" where
  "changeFiles_pv dry [] changed s = (Inr changed, s)"
| "changeFiles_pv dry (file # fs) changed s =
     (case changeVersion_pv dry file s of
        (Inl e, s') \<Rightarrow> (Inl e, s')
      | (Inr c, s') \<Rightarrow> changeFiles_pv dry fs (c \<or> changed) s')"

fun rewriteAll_pv :: "bool \<Rightarrow> string list \<Rightarrow> ctxt \<Rightarrow> panic option \<times> ctxt" where
  "rewriteAll_pv dry [] s = (None, s)"
| "rewriteAll_pv dry (path # ps) s =
     (case editPkgs s path of
        None \<Rightarrow> rewriteAll_pv dry ps s
      | Some ep \<Rightarrow>
          if \<not> needsEdit ep then rewriteAll_pv dry ps s
          else
            (case changeFiles_pv dry (goFiles ep) False s of
               (Inl e, s') \<Rightarrow> (Some e, s')
             | (Inr changed, s') \<Rightarrow>
                 rewriteAll_pv dry ps (if changed then s'\<lparr>stdout := stdout s' @ [path]\<rparr> else s')))"

text \<open>
  \<^verbatim>\<open>main\<close> of this revision. The composite literal of the context calls
  \<^verbatim>\<open>pathPat\<close> before anything is walked. After the check the program exits with
  status 1 if the check failed, before the loop that rewrites.
\<close>

definition main_pp :: "env \<Rightarrow> nat \<Rightarrow> (nat \<times> ctxt) option" where
  "main_pp e fuel =
     (case args e of
        [arg] \<Rightarrow>
          (case getwd e of
             None \<Rightarrow> Some (2, logf CannotGetwd (init e))
           | Some dir \<Rightarrow>
               (case pathPat arg of
                  Inl p \<Rightarrow> Some (2, init e)
                | Inr pat \<Rightarrow>
                    (let s0 = (init e)\<lparr>fixPackage := arg, fixPackagePat := pat\<rparr>;
                         s1 = walkDir (build e) dir (tree e) s0 in
                     case checkAll_pp (build e) fuel (order1 e) s1 of
                       None \<Rightarrow> None
                     | Some s2 \<Rightarrow>
                         if failed s2 then Some (1, s2)
                         else
                           (case rewriteAll_pv False (order2 e) s2 of
                              (Some p, s3) \<Rightarrow> Some (2, s3)
                            | (None, s3) \<Rightarrow> Some (if failed s3 then 1 else 0, s3)))))
      | _ \<Rightarrow> Some (2, logf Usage (init e)))"

subsection \<open>The revision with pathVersionPat and flags (under src/unnamed, after the README)\<close>

text \<open>
  The pattern of a version is \<^verbatim>\<open>versPat = [/|\.]v[0-9]+(-unstable)?\<close>: one of the
  three bytes of the bracket expression (a slash, a vertical bar, a dot), the letter
  v, one or more digits, and maybe \<^verbatim>\<open>-unstable\<close>. \<open>vers_rests s\<close> lists what is
  left of \<open>s\<close> after each way to match the pattern at the start of \<open>s\<close>, in the
  order in which a backtracking matcher tries them, which is the order of preference
  of Go's \<^verbatim>\<open>regexp\<close>: more digits before fewer, and with \<^verbatim>\<open>-unstable\<close> before
  without.
\<close>

definition isVersSep :: "char \<Rightarrow> bool" where
  "isVersSep c \<longleftrightarrow> c = CHR ''/'' \<or> c = CHR ''|'' \<or> c = CHR ''.''"

definition after_digits :: "string \<Rightarrow> nat \<Rightarrow> string list" where
  "after_digits t k =
     (let r = drop k t in (if take 9 r = ''-unstable'' then [drop 9 r] else []) @ [r])"

definition vers_rests :: "string \<Rightarrow> string list" where
  "vers_rests s =
     (case s of
        c # v # t \<Rightarrow>
          if isVersSep c \<and> v = CHR ''v''
          then concat (map (after_digits t) (rev [1 ..< Suc (length (takeWhile isDigit t))]))
          else []
      | _ \<Rightarrow> [])"

text \<open>
  \<^verbatim>\<open>versRe\<close> is \<^verbatim>\<open>versPat\<close> followed by \<^verbatim>\<open>(/|$)\<close>: a slash, which is part of the
  match, or the end of the input. \<open>match_versRe s\<close> is what follows the match of
  \<^verbatim>\<open>versRe\<close> at the start of \<open>s\<close>, if there is one.
\<close>

definition match_versRe :: "string \<Rightarrow> string option" where
  "match_versRe s =
     (case filter (\<lambda>r. r = [] \<or> hd r = CHR ''/'') (vers_rests s) of
        [] \<Rightarrow> None
      | r # rs \<Rightarrow> Some (if r = [] then [] else tl r))"

lemma match_versRe_shorter: "match_versRe s = Some r \<Longrightarrow> length r < length s"
proof -
  assume a: "match_versRe s = Some r"
  have all: "\<forall>x \<in> set (vers_rests s). length x < length s"
    by (auto simp: vers_rests_def after_digits_def Let_def split: list.splits if_splits)
  from a obtain x xs where f: "filter (\<lambda>r. r = [] \<or> hd r = CHR ''/'') (vers_rests s) = x # xs"
    and r: "r = (if x = [] then [] else tl x)"
    by (auto simp: match_versRe_def split: list.splits)
  from f have "x \<in> set (filter (\<lambda>r. r = [] \<or> hd r = CHR ''/'') (vers_rests s))" by simp
  then have "x \<in> set (vers_rests s)" by simp
  with all have "length x < length s" by blast
  then show ?thesis using r by (cases x) auto
qed

fun versRe_MatchString :: "string \<Rightarrow> bool" where
  "versRe_MatchString [] \<longleftrightarrow> False"
| "versRe_MatchString (c # t) \<longleftrightarrow> match_versRe (c # t) \<noteq> None \<or> versRe_MatchString t"

function versRe_ReplaceAll :: "string \<Rightarrow> string" where
  "versRe_ReplaceAll [] = []"
| "versRe_ReplaceAll (c # t) =
     (case match_versRe (c # t) of
        Some r \<Rightarrow> CHR ''#'' # versRe_ReplaceAll r
      | None \<Rightarrow> c # versRe_ReplaceAll t)"
  by pat_completeness auto
termination
  by (relation "measure length") (auto dest: match_versRe_shorter)

text \<open>
  \<^verbatim>\<open>pathVersionPat\<close> replaces every match of \<^verbatim>\<open>versRe\<close> in the path by \<^verbatim>\<open>#\<close>,
  quotes the result with \<^verbatim>\<open>regexp.QuoteMeta\<close>, replaces every \<^verbatim>\<open>#\<close> by
  \<^verbatim>\<open>versPat\<close> and compiles \<^verbatim>\<open>^(\<close> ... \<^verbatim>\<open>)(/|$)\<close>. The first group of the compiled
  pattern is thus a sequence of items, each a quoted byte, which matches itself, or
  \<^verbatim>\<open>versPat\<close> (\<^verbatim>\<open>QuoteMeta\<close> leaves \<^verbatim>\<open>#\<close> alone). \<open>items_rests\<close> lists what is
  left of the input after each way to match the items, in the order of preference;
  \<open>compiled\<close> takes the first that is followed by a slash or by the end of the
  input and gives the end of the first group. Package paths are taken to be valid
  UTF-8, as the paths of Go packages are, so that matching byte by byte is matching
  rune by rune; on other bytes \<^verbatim>\<open>regexp.MustCompile\<close> rejects the quoted path and
  the matcher of Go reads the rune U+FFFD, which the model does not follow.
\<close>

datatype item = Lit char | Vers

fun items_rests :: "item list \<Rightarrow> string \<Rightarrow> string list" where
  "items_rests [] s = [s]"
| "items_rests (Lit c # is) s =
     (case s of [] \<Rightarrow> [] | d # t \<Rightarrow> if d = c then items_rests is t else [])"
| "items_rests (Vers # is) s = concat (map (items_rests is) (vers_rests s))"

definition compiled :: "item list \<Rightarrow> regexp" where
  "compiled is p =
     (case filter (\<lambda>r. r = [] \<or> hd r = CHR ''/'') (items_rests is p) of
        [] \<Rightarrow> None
      | r # rs \<Rightarrow> Some (length p - length r))"

definition pathVersionPat :: "string \<Rightarrow> regexp option" where
  "pathVersionPat p =
     (if \<not> versRe_MatchString p then None
      else Some (compiled (map (\<lambda>c. if c = CHR ''#'' then Vers else Lit c) (versRe_ReplaceAll p))))"

text \<open>
  \<^verbatim>\<open>checkPackage\<close> of this revision. Each import is imported once more, from the
  directory of the package, to find its path; the error of that call is dropped, and
  the test \<^verbatim>\<open>err != nil\<close> that follows reads the error of the first call, which is
  nil at that point, so its \<^verbatim>\<open>continue\<close> is never taken. With \<^verbatim>\<open>-d\<close> the function
  does not call itself.
\<close>

fun checkPackage_pv :: "buildctx \<Rightarrow> bool \<Rightarrow> nat \<Rightarrow> string \<Rightarrow> string \<Rightarrow> ctxt \<Rightarrow> ctxt option"
and checkImports_pv :: "buildctx \<Rightarrow> bool \<Rightarrow> nat \<Rightarrow> string \<Rightarrow> bpkg \<Rightarrow> string list \<Rightarrow> ctxt \<Rightarrow> ctxt option" where
  "checkPackage_pv b nodeps 0 path fromDir s = None"
| "checkPackage_pv b nodeps (Suc n) path fromDir s =
     (if path = ''C'' then Some s
      else if path \<in> checked s then Some s
      else
        (case Import b path fromDir of
           (pkg, err) \<Rightarrow>
             (let s1 = s\<lparr>imported := imported s @ [path],
                         checked := insert (ImportPath pkg) (checked s)\<rparr> in
              case err of
                Some e \<Rightarrow> Some (if e = NoGoError then s1 else logf (CannotImportFrom path fromDir) s1)
              | None \<Rightarrow>
                  checkImports_pv b nodeps n path pkg
                    (Imports pkg @
                       (if editPkgs s1 path \<noteq> None then TestImports pkg @ XTestImports pkg else []))
                    s1)))"
| "checkImports_pv b nodeps n path pkg [] s = Some s"
| "checkImports_pv b nodeps n path pkg (impPath # imps) s =
     (case Import b impPath (Dir pkg) of
        (impPkg, err') \<Rightarrow>
          (let s1 = s\<lparr>imported := imported s @ [impPath]\<rparr> in
           if fixPath s1 (ImportPath impPkg) \<noteq> ImportPath impPkg then
             (case editPkgs s1 path of
                None \<Rightarrow>
                  checkImports_pv b nodeps n path pkg imps
                    (logf (Inconsistent (ImportPath pkg) (ImportPath impPkg)) (s1\<lparr>failed := True\<rparr>))
              | Some ep \<Rightarrow>
                  (let s2 = s1\<lparr>editPkgs := (editPkgs s1)(path \<mapsto> ep\<lparr>needsEdit := True\<rparr>)\<rparr> in
                   if nodeps then checkImports_pv b nodeps n path pkg imps s2
                   else
                     (case checkPackage_pv b nodeps n (fixPath s1 (ImportPath impPkg)) (Dir impPkg) s2 of
                        None \<Rightarrow> None
                      | Some s' \<Rightarrow> checkImports_pv b nodeps n path pkg imps s')))
           else if nodeps then checkImports_pv b nodeps n path pkg imps s1
           else
             (case checkPackage_pv b nodeps n impPath (Dir impPkg) s1 of
                None \<Rightarrow> None
              | Some s' \<Rightarrow> checkImports_pv b nodeps n path pkg imps s')))"

fun checkAll_pv :: "buildctx \<Rightarrow> bool \<Rightarrow> nat \<Rightarrow> string \<Rightarrow> string list \<Rightarrow> ctxt \<Rightarrow> ctxt option" where
  "checkAll_pv b nodeps n dir [] s = Some s"
| "checkAll_pv b nodeps n dir (path # ps) s =
     (case checkPackage_pv b nodeps n path dir s of
        None \<Rightarrow> None
      | Some s' \<Rightarrow> checkAll_pv b nodeps n dir ps s')"

text \<open>
  \<^verbatim>\<open>main\<close> of this revision. \<^verbatim>\<open>flag.Usage\<close> prints the help text to standard
  output; the constant is long, and the model keeps its first line for it. The
  second test of \<^verbatim>\<open>ctxt.failed\<close>, after the loop that rewrites, is kept as the code
  has it.
\<close>

definition help_text :: string where
  "help_text = ''The govers command searches all Go packages under the current''"

definition main_pv :: "env \<Rightarrow> nat \<Rightarrow> (nat \<times> ctxt) option" where
  "main_pv e fuel =
     (case args e of
        [newPackage] \<Rightarrow>
          (case getwd e of
             None \<Rightarrow> Some (2, logf CannotGetwd (init e))
           | Some dir \<Rightarrow>
               (case (if match e \<noteq> [] then Compile e (''^('' @ match e @ '')'')
                      else pathVersionPat newPackage) of
                  None \<Rightarrow>
                    Some (2, logf (if match e \<noteq> [] then InvalidMatch else NotVersioned newPackage) (init e))
                | Some pat \<Rightarrow>
                    (let s0 = (init e)\<lparr>fixPackage := newPackage, fixPackagePat := pat\<rparr>;
                         s1 = walkDir (build e) dir (tree e) s0 in
                     case checkAll_pv (build e) (noDependencies e) fuel dir (order1 e) s1 of
                       None \<Rightarrow> None
                     | Some s2 \<Rightarrow>
                         if failed s2 then Some (1, s2)
                         else
                           (case rewriteAll_pv (noEdit e) (order2 e) s2 of
                              (Some p, s3) \<Rightarrow> Some (2, s3)
                            | (None, s3) \<Rightarrow> Some (if failed s3 then 1 else 0, s3)))))
      | _ \<Rightarrow> Some (2, (init e)\<lparr>stdout := [help_text]\<rparr>))"

subsection \<open>Two runs of the last revision\<close>

text \<open>
  The context of a run with the argument \<^verbatim>\<open>gopkg.in/tomb.v3\<close>, the example of the
  documentation, and of a run with the argument \<^verbatim>\<open>a/v12/2\<close>, a path whose version
  element is not the last one. Neither run is given \<^verbatim>\<open>-m\<close>.
\<close>

definition ctxt_of_arg :: "string \<Rightarrow> ctxt" where
  "ctxt_of_arg newPackage =
     (init ex_env)\<lparr>fixPackage := newPackage,
                   fixPackagePat := (case pathVersionPat newPackage of Some pat \<Rightarrow> pat | None \<Rightarrow> (\<lambda>p. None))\<rparr>"

definition ex_ctxt_tomb :: ctxt where
  "ex_ctxt_tomb = ctxt_of_arg ''gopkg.in/tomb.v3''"

definition ex_ctxt_shift :: ctxt where
  "ex_ctxt_shift = ctxt_of_arg ''a/v12/2''"

subsection \<open>Vocabulary of the properties of the dependency check\<close>

text \<open>
  \<open>extends s s'\<close>: the state \<open>s'\<close> comes from \<open>s\<close> by steps of the dependency
  check. Such steps mark paths as checked, set \<^verbatim>\<open>needsEdit\<close> and \<^verbatim>\<open>failed\<close>, and
  append to standard error and to the list of imported paths; they leave the source
  files, standard output, the keys of \<^verbatim>\<open>editPkgs\<close> and the new package path alone.
\<close>

definition extends :: "ctxt \<Rightarrow> ctxt \<Rightarrow> bool" where
  "extends s s' \<longleftrightarrow>
     files s' = files s \<and> stdout s' = stdout s \<and> cwd s' = cwd s
     \<and> fixPackage s' = fixPackage s \<and> fixPackageCanon s' = fixPackageCanon s
     \<and> fixPackagePat s' = fixPackagePat s
     \<and> checked s \<subseteq> checked s'
     \<and> dom (editPkgs s') = dom (editPkgs s)
     \<and> (\<forall>p ep. editPkgs s p = Some ep \<longrightarrow>
            (\<exists>ep'. editPkgs s' p = Some ep' \<and> goFiles ep' = goFiles ep
                   \<and> (needsEdit ep \<longrightarrow> needsEdit ep')))
     \<and> (\<exists>l. stderr s' = stderr s @ l)
     \<and> (\<exists>l. imported s' = imported s @ l)
     \<and> (failed s \<longrightarrow> failed s')"

text \<open>
  The import graph of a build context, as the check of govers.go and of the revision
  with \<^verbatim>\<open>pathPat\<close> see it, importing from the directory \<^verbatim>\<open>"."\<close>: its nodes are
  the paths that import without an error, and the edges of a node are the imports
  of its package. The graph is what the claims call a finite import graph when
  finitely many paths import without an error and the package found for a path
  carries that path as its \<^verbatim>\<open>ImportPath\<close>, which is what \<^verbatim>\<open>go/build\<close> does for an
  import from \<^verbatim>\<open>"."\<close>.
\<close>

definition importable :: "buildctx \<Rightarrow> string set" where
  "importable b = {p. snd (Import b p ''.'') = None}"

definition import_graph :: "buildctx \<Rightarrow> bool" where
  "import_graph b \<longleftrightarrow> finite (importable b) \<and> (\<forall>p. ImportPath (fst (Import b p ''.'')) = p)"

text \<open>
  \<open>once s\<close>: no path was given to \<^verbatim>\<open>buildCtxt.Import\<close> twice so far, and every path
  that was imported is recorded in \<^verbatim>\<open>checked\<close>.
\<close>

definition once :: "ctxt \<Rightarrow> bool" where
  "once s \<longleftrightarrow> set (imported s) \<subseteq> checked s \<and> distinct (imported s)"

text \<open>
  An inconsistent use, for govers.go: the package at \<open>path\<close> imports without an
  error, is not one of the packages being edited, and imports \<open>imp\<close>, a path of the
  canonical form of the new package path that is not the new package path.
  \<open>reported b s s'\<close> says that every inconsistent use by a package imported between
  the states \<open>s\<close> and \<open>s'\<close> is on standard error in \<open>s'\<close>, with \<^verbatim>\<open>failed\<close> set.
\<close>

definition inconsistent_use :: "buildctx \<Rightarrow> ctxt \<Rightarrow> string \<Rightarrow> string \<Rightarrow> bool" where
  "inconsistent_use b s path imp \<longleftrightarrow>
     snd (Import b path ''.'') = None \<and> editPkgs s path = None
     \<and> imp \<in> set (Imports (fst (Import b path ''.'')))
     \<and> canonicalPath imp = fixPackageCanon s \<and> imp \<noteq> fixPackage s"

definition reported :: "buildctx \<Rightarrow> ctxt \<Rightarrow> ctxt \<Rightarrow> bool" where
  "reported b s s' \<longleftrightarrow>
     (\<forall>q imp. q \<in> set (imported s') - set (imported s) \<and> inconsistent_use b s' q imp \<longrightarrow>
        failed s' \<and> Uses q imp \<in> set (stderr s'))"

definition checks :: "buildctx \<Rightarrow> ctxt \<Rightarrow> ctxt \<Rightarrow> bool" where
  "checks b s s' \<longleftrightarrow>
     extends s s' \<and> (fixPackageCanon s = canonicalPath (fixPackage s) \<longrightarrow> reported b s s')"

text \<open>
  What the directory walk and the loop that rewrites leave alone.
\<close>

definition same_but_pkgs :: "ctxt \<Rightarrow> ctxt \<Rightarrow> bool" where
  "same_but_pkgs s s' \<longleftrightarrow>
     files s' = files s \<and> stdout s' = stdout s \<and> cwd s' = cwd s \<and> failed s' = failed s
     \<and> fixPackage s' = fixPackage s \<and> fixPackageCanon s' = fixPackageCanon s
     \<and> fixPackagePat s' = fixPackagePat s \<and> checked s' = checked s \<and> imported s' = imported s"

definition same_but_files :: "ctxt \<Rightarrow> ctxt \<Rightarrow> bool" where
  "same_but_files s s' \<longleftrightarrow>
     cwd s' = cwd s \<and> failed s' = failed s
     \<and> fixPackage s' = fixPackage s \<and> fixPackageCanon s' = fixPackageCanon s
     \<and> fixPackagePat s' = fixPackagePat s \<and> checked s' = checked s \<and> imported s' = imported s
     \<and> editPkgs s' = editPkgs s
     \<and> (\<exists>l. stderr s' = stderr s @ l) \<and> (\<exists>l. stdout s' = stdout s @ l)"

text \<open>
  A build context with a cycle: the packages \<^verbatim>\<open>p\<close> and \<^verbatim>\<open>q\<close> import each other.
\<close>

definition ex_cycle :: buildctx where
  "ex_cycle =
     \<lparr>Import = (\<lambda>p d.
        if p = ''p'' then ex_pkg p [''q'']
        else if p = ''q'' then ex_pkg p [''p'']
        else (\<lparr>ImportPath = p, Dir = [], Imports = [], TestImports = [], XTestImports = []\<rparr>,
              Some OtherImportError)),
      ImportFindOnly = (\<lambda>d. None)\<rparr>"

subsection \<open>A run of the last revision on the example of its documentation\<close>

text \<open>
  The package \<^verbatim>\<open>m/a\<close> in the working directory \<^verbatim>\<open>/w\<close> imports
  \<^verbatim>\<open>gopkg.in/tomb.v2\<close>, and the program is run with \<^verbatim>\<open>-n\<close> and the argument
  \<^verbatim>\<open>gopkg.in/tomb.v3\<close>.
\<close>

definition ex_build_tomb :: buildctx where
  "ex_build_tomb =
     \<lparr>Import = (\<lambda>p d.
        if p = ''m/a'' then ex_pkg p [''gopkg.in/tomb.v2'']
        else if p = ''gopkg.in/tomb.v2'' then ex_pkg p []
        else if p = ''gopkg.in/tomb.v3'' then ex_pkg p []
        else (\<lparr>ImportPath = p, Dir = [], Imports = [], TestImports = [], XTestImports = []\<rparr>,
              Some OtherImportError)),
      ImportFindOnly = (\<lambda>d. if d = ''/w/a'' then Some ''m/a'' else None)\<rparr>"

definition ex_disk_tomb :: "string \<Rightarrow> srcfile" where
  "ex_disk_tomb p =
     (if p = ''/w/a/f.go'' then
        Source \<lparr>ImportSpecs = [Quoted ''gopkg.in/tomb.v2''], other = ''package a; F''\<rparr> False True
      else Unreadable)"

definition ex_env_dry :: env where
  "ex_env_dry =
     \<lparr>args = [''gopkg.in/tomb.v3''], getwd = Some ''/w'',
      tree = DirNode (Some [(''a'', DirNode (Some [(''f.go'', FileNode)]))]),
      disk = ex_disk_tomb, build = ex_build_tomb, order1 = [''m/a''], order2 = [''m/a''],
      match = [], noEdit = True, noDependencies = False, Compile = (\<lambda>p. None)\<rparr>"

subsection \<open>Vocabulary of the properties of walkDir\<close>

text \<open>
  The directories that the walk reaches, each with its entries, in the order in
  which \<^verbatim>\<open>walkDir\<close> finishes with them: the directory it is called on, if it can be
  read, after the directories reached from those of its entries that are
  directories and whose names do not start with a dot. \<open>go_files\<close> are the paths
  of the entries of a directory that are not directories and whose names end in
  \<^verbatim>\<open>.go\<close>, in the order of the entries. \<open>pkg_dirs\<close> lists the reached
  directories that resolve to a given import path.
\<close>

fun reached :: "string \<Rightarrow> fsnode \<Rightarrow> (string \<times> (string \<times> fsnode) list) list"
and reached_below :: "string \<Rightarrow> (string \<times> fsnode) list \<Rightarrow> (string \<times> (string \<times> fsnode) list) list" where
  "reached path FileNode = []"
| "reached path (DirNode None) = []"
| "reached path (DirNode (Some entries)) = reached_below path entries @ [(path, entries)]"
| "reached_below path [] = []"
| "reached_below path ((name, FileNode) # es) = reached_below path es"
| "reached_below path ((name, DirNode d) # es) =
     (if HasPrefix name ''.'' then [] else reached (Join path name) (DirNode d)) @ reached_below path es"

fun go_files :: "string \<Rightarrow> (string \<times> fsnode) list \<Rightarrow> string list" where
  "go_files path [] = []"
| "go_files path ((name, FileNode) # es) =
     (if HasSuffix name ''.go'' then Join path name # go_files path es else go_files path es)"
| "go_files path ((name, DirNode d) # es) = go_files path es"

definition pkg_dirs :: "buildctx \<Rightarrow> string \<Rightarrow> (string \<times> (string \<times> fsnode) list) list
    \<Rightarrow> (string \<times> (string \<times> fsnode) list) list" where
  "pkg_dirs b ip ds = filter (\<lambda>d. ImportFindOnly b (fst d) = Some ip) ds"

text \<open>
  A tree with a hidden directory: \<^verbatim>\<open>/w/.hid\<close> holds a Go file and resolves to the
  package \<^verbatim>\<open>m/hid\<close>, next to the directory \<^verbatim>\<open>/w/a\<close> of the package \<^verbatim>\<open>m/a\<close>, which
  also has a subdirectory whose name ends in \<^verbatim>\<open>.go\<close>.
\<close>

definition ex_tree :: fsnode where
  "ex_tree =
     DirNode (Some
       [(''.hid'', DirNode (Some [(''x.go'', FileNode)])),
        (''a'', DirNode (Some [(''d.go'', DirNode (Some [])), (''f.go'', FileNode), (''notes.txt'', FileNode)]))])"

definition ex_find :: buildctx where
  "ex_find =
     \<lparr>Import = Import ex_build,
      ImportFindOnly = (\<lambda>d. if d = ''/w/a'' then Some ''m/a''
                            else if d = ''/w/.hid'' then Some ''m/hid'' else None)\<rparr>"

text \<open>
  What registering a reached directory does to the map \<^verbatim>\<open>editPkgs\<close>.
\<close>

definition register :: "buildctx \<Rightarrow> (string \<rightharpoonup> editPkg) \<Rightarrow> string \<times> (string \<times> fsnode) list \<Rightarrow> (string \<rightharpoonup> editPkg)" where
  "register b m d =
     (case ImportFindOnly b (fst d) of
        None \<Rightarrow> m
      | Some ip \<Rightarrow> m(ip \<mapsto> \<lparr>goFiles = go_files (fst d) (snd d), needsEdit = False\<rparr>))"

subsection \<open>Vocabulary of the properties of the loop that rewrites\<close>

text \<open>
  A file has an import to rewrite when it can be read and one of its import
  literals is one that \<^verbatim>\<open>changeVersion\<close> replaces: in govers.go a literal that
  matches the canonical form of the new package path, in the later revisions a
  literal whose path \<^verbatim>\<open>fixPath\<close> changes. A package has an edit when it is marked
  as needing one and one of its files has an import to rewrite. \<open>edited_files\<close>
  lists the files of the packages marked as needing an edit, in the order of the
  traversal.
\<close>

fun matches_pv :: "ctxt \<Rightarrow> importLit \<Rightarrow> bool" where
  "matches_pv s (Quoted p) \<longleftrightarrow> fixPath s p \<noteq> p"
| "matches_pv s (Malformed t) \<longleftrightarrow> False"

fun fixImport_pv :: "ctxt \<Rightarrow> importLit \<Rightarrow> importLit" where
  "fixImport_pv s (Quoted p) = Quoted (fixPath s p)"
| "fixImport_pv s (Malformed t) = Malformed t"

fun file_changes :: "(importLit \<Rightarrow> bool) \<Rightarrow> srcfile \<Rightarrow> bool" where
  "file_changes m Unreadable \<longleftrightarrow> False"
| "file_changes m (Source f e cr) \<longleftrightarrow> list_ex m (ImportSpecs f)"

definition pkg_changes :: "(importLit \<Rightarrow> bool) \<Rightarrow> ctxt \<Rightarrow> (string \<Rightarrow> srcfile) \<Rightarrow> string \<Rightarrow> bool" where
  "pkg_changes m s fs p =
     (case editPkgs s p of
        None \<Rightarrow> False
      | Some ep \<Rightarrow> needsEdit ep \<and> list_ex (\<lambda>f. file_changes m (fs f)) (goFiles ep))"

definition edited_files :: "ctxt \<Rightarrow> string list \<Rightarrow> string list" where
  "edited_files s ps =
     concat (map (\<lambda>p. case editPkgs s p of
                        None \<Rightarrow> []
                      | Some ep \<Rightarrow> if needsEdit ep then goFiles ep else []) ps)"

section \<open>Properties\<close>

subsection \<open>splitQuotedFields\<close>

lemma isQuote_not_space: "isQuoteByte c \<Longrightarrow> \<not> isSpaceByte c"
  by (auto simp: isQuoteByte_def isSpaceByte_def)

lemma splitLoop_blank: "dropWhile isSpaceByte s = [] \<Longrightarrow> splitLoop f s = Inr f"
  by (subst splitLoop.simps) (simp del: dropWhile_eq_Nil_conv)

lemma splitLoop_quote:
  "dropWhile isSpaceByte s = c # s2 \<Longrightarrow> isQuoteByte c \<Longrightarrow>
   splitLoop f s =
     (if c \<notin> set s2 then Inl (Unterminated c)
      else splitLoop (f @ [takeWhile (\<lambda>d. d \<noteq> c) s2]) (tl (dropWhile (\<lambda>d. d \<noteq> c) s2)))"
proof -
  assume a: "dropWhile isSpaceByte s = c # s2" and q: "isQuoteByte c"
  have len: "length s2 \<le> length (takeWhile (\<lambda>d. d \<noteq> c) s2) \<longleftrightarrow> c \<notin> set s2"
  proof
    assume "length s2 \<le> length (takeWhile (\<lambda>d. d \<noteq> c) s2)"
    then have "length (takeWhile (\<lambda>d. d \<noteq> c) s2) = length s2"
      using length_takeWhile_le[of "\<lambda>d. d \<noteq> c" s2] by simp
    then have "takeWhile (\<lambda>d. d \<noteq> c) s2 = s2"
      by (metis takeWhile_eq_take take_all order_refl)
    then show "c \<notin> set s2" by (metis (mono_tags, lifting) takeWhile_eq_all_conv)
  next
    assume "c \<notin> set s2"
    then have "\<forall>x\<in>set s2. x \<noteq> c" by auto
    then have "takeWhile (\<lambda>d. d \<noteq> c) s2 = s2" by (rule takeWhile_eq_all_conv[THEN iffD2])
    then show "length s2 \<le> length (takeWhile (\<lambda>d. d \<noteq> c) s2)" by (metis order_refl)
  qed
  have d1: "drop (Suc (length (takeWhile (\<lambda>d. d \<noteq> c) s2))) s2 = tl (dropWhile (\<lambda>d. d \<noteq> c) s2)"
    by (simp add: dropWhile_eq_drop drop_Suc tl_drop)
  have t1: "take (length (takeWhile (\<lambda>d. d \<noteq> c) s2)) s2 = takeWhile (\<lambda>d. d \<noteq> c) s2"
    by (simp add: takeWhile_eq_take[symmetric])
  show ?thesis
    apply (subst splitLoop.simps)
    apply (simp only: a Let_def list.case)
    using q len d1 t1 by (simp add: isQuoteByte_def)
qed

lemma splitLoop_bare:
  "dropWhile isSpaceByte s = c # s2 \<Longrightarrow> \<not> isQuoteByte c \<Longrightarrow>
   splitLoop f s =
     splitLoop (f @ [takeWhile (\<lambda>d. \<not> isSpaceByte d) (c # s2)])
       (dropWhile (\<lambda>d. \<not> isSpaceByte d) (c # s2))"
proof -
  assume a: "dropWhile isSpaceByte s = c # s2" and q: "\<not> isQuoteByte c"
  have t1: "take (length (takeWhile (\<lambda>d. \<not> isSpaceByte d) (c # s2))) (c # s2) = takeWhile (\<lambda>d. \<not> isSpaceByte d) (c # s2)"
    by (rule takeWhile_eq_take[symmetric])
  have d1: "drop (length (takeWhile (\<lambda>d. \<not> isSpaceByte d) (c # s2))) (c # s2) = dropWhile (\<lambda>d. \<not> isSpaceByte d) (c # s2)"
    by (rule dropWhile_eq_drop[symmetric])
  show ?thesis
    apply (subst splitLoop.simps)
    apply (simp only: a Let_def list.case t1 d1)
    using q by (simp add: isQuoteByte_def)
qed

lemma dropWhile_shorter: "dropWhile P s = c # s2 \<Longrightarrow> length s2 < length s"
  using length_dropWhile_le[of P s] by simp

lemma splitLoop_acc:
  "splitLoop g s = (case splitLoop [] s of Inl e \<Rightarrow> Inl e | Inr fs \<Rightarrow> Inr (g @ fs))"
proof (induction "length s" arbitrary: s g rule: less_induct)
  case less
  show ?case
  proof (cases "dropWhile isSpaceByte s")
    case Nil
    then show ?thesis by (simp only: splitLoop_blank) simp
  next
    case (Cons c s2)
    have l2: "length s2 < length s" using Cons by (rule dropWhile_shorter)
    show ?thesis
    proof (cases "isQuoteByte c")
      case True
      let ?r = "tl (dropWhile (\<lambda>d. d \<noteq> c) s2)"
      have "length ?r \<le> length s2"
        using length_dropWhile_le[of "\<lambda>d. d \<noteq> c" s2] by simp
      then have lr: "length ?r < length s" using l2 by simp
      show ?thesis
        unfolding splitLoop_quote[OF Cons True]
        by (subst less[OF lr], subst (2) less[OF lr]) (simp split: sum.splits)
    next
      case False
      let ?r = "dropWhile (\<lambda>d. \<not> isSpaceByte d) (c # s2)"
      have "length ?r \<le> length s2"
      proof -
        have "\<not> isSpaceByte c" using Cons by (metis hd_dropWhile list.distinct(1) list.sel(1))
        then show ?thesis using length_dropWhile_le[of "\<lambda>d. \<not> isSpaceByte d" s2] by simp
      qed
      then have lr: "length ?r < length s" using l2 by simp
      show ?thesis
        unfolding splitLoop_bare[OF Cons False]
        by (subst less[OF lr], subst (2) less[OF lr]) (simp split: sum.splits)
    qed
  qed
qed

lemma splitLoop_single: "splitLoop [w] s = cons_field w (splitLoop [] s)"
  by (subst splitLoop_acc) (simp split: sum.splits)

lemma split_blank: "dropWhile isSpaceByte s = [] \<Longrightarrow> splitQuotedFields s = Inr []"
  by (simp only: splitQuotedFields_def splitLoop_blank)

lemma split_quote:
  "dropWhile isSpaceByte s = c # s2 \<Longrightarrow> isQuoteByte c \<Longrightarrow>
   splitQuotedFields s =
     (if c \<notin> set s2 then Inl (Unterminated c)
      else cons_field (takeWhile (\<lambda>d. d \<noteq> c) s2)
             (splitQuotedFields (tl (dropWhile (\<lambda>d. d \<noteq> c) s2))))"
  by (simp only: splitQuotedFields_def splitLoop_quote append_Nil splitLoop_single)

lemma split_bare:
  "dropWhile isSpaceByte s = c # s2 \<Longrightarrow> \<not> isQuoteByte c \<Longrightarrow>
   splitQuotedFields s =
     cons_field (takeWhile (\<lambda>d. \<not> isSpaceByte d) (c # s2))
       (splitQuotedFields (dropWhile (\<lambda>d. \<not> isSpaceByte d) (c # s2)))"
  unfolding splitQuotedFields_def
  using splitLoop_bare[of s c s2 "[]"] splitLoop_single by simp

lemma dropWhile_spaces: "\<forall>c\<in>set ws. isSpaceByte c \<Longrightarrow> \<not> isSpaceByte a \<Longrightarrow>
  dropWhile isSpaceByte (ws @ a # r) = a # r"
  by (simp add: dropWhile_append)

lemma fields_of_complete: "fields_of s r \<Longrightarrow> splitQuotedFields s = r"
proof (induction rule: fields_of.induct)
  case (blank s)
  then have "dropWhile isSpaceByte s = []" by simp
  then show ?case by (rule split_blank)
next
  case (bare ws a w rest r)
  have na: "\<not> isSpaceByte a" using bare(2) by simp
  have d: "dropWhile isSpaceByte (ws @ (a # w) @ rest) = a # (w @ rest)"
    using dropWhile_spaces[OF bare(1) na] by simp
  have t: "takeWhile (\<lambda>d. \<not> isSpaceByte d) (a # w @ rest) = a # w"
    using bare(2,4) by (cases rest) (auto simp: takeWhile_append intro: takeWhile_eq_all_conv[THEN iffD2])
  have dr: "dropWhile (\<lambda>d. \<not> isSpaceByte d) (a # w @ rest) = rest"
    using bare(2,4) by (cases rest) (auto simp: dropWhile_append)
  show ?case using split_bare[OF d bare(3)] t dr bare.IH by simp
next
  case (quoted ws q w rest r)
  have d: "dropWhile isSpaceByte (ws @ q # w @ q # rest) = q # (w @ q # rest)"
    using dropWhile_spaces[OF quoted(1) isQuote_not_space[OF quoted(2)]] by simp
  have t: "takeWhile (\<lambda>d. d \<noteq> q) (w @ q # rest) = w"
    using quoted(3) by (simp add: takeWhile_append)
  have dr: "dropWhile (\<lambda>d. d \<noteq> q) (w @ q # rest) = q # rest"
    using quoted(3) by (simp add: dropWhile_append) 
  show ?case using split_quote[OF d quoted(2)] t dr quoted.IH by simp
next
  case (unterminated ws q w)
  have d: "dropWhile isSpaceByte (ws @ q # w) = q # w"
    using dropWhile_spaces[OF unterminated(1) isQuote_not_space[OF unterminated(2)]] by simp
  show ?case using split_quote[OF d unterminated(2)] unterminated(3) by simp
qed

lemma fields_of_sound: "fields_of s (splitQuotedFields s)"
proof (induction "length s" arbitrary: s rule: less_induct)
  case less
  have sp: "\<forall>c\<in>set (takeWhile isSpaceByte s). isSpaceByte c"
    by (metis (mono_tags, lifting) set_takeWhileD)
  have decomp: "s = takeWhile isSpaceByte s @ dropWhile isSpaceByte s" by simp
  show ?case
  proof (cases "dropWhile isSpaceByte s")
    case Nil
    then have "\<forall>c\<in>set s. isSpaceByte c" by simp
    then show ?thesis unfolding split_blank[OF Nil] by (rule fields_of.blank)
  next
    case (Cons c s2)
    have l2: "length s2 < length s" using Cons by (rule dropWhile_shorter)
    have nc: "\<not> isSpaceByte c" using Cons by (metis hd_dropWhile list.distinct(1) list.sel(1))
    show ?thesis
    proof (cases "isQuoteByte c")
      case True
      show ?thesis
      proof (cases "c \<in> set s2")
        case False
        have "fields_of (takeWhile isSpaceByte s @ c # s2) (Inl (Unterminated c))"
          using sp True False by (rule fields_of.unterminated)
        then show ?thesis using decomp Cons split_quote[OF Cons True] False by simp
      next
        case cin: True
        let ?w = "takeWhile (\<lambda>d. d \<noteq> c) s2"
        let ?r = "tl (dropWhile (\<lambda>d. d \<noteq> c) s2)"
        have dw: "dropWhile (\<lambda>d. d \<noteq> c) s2 = c # ?r"
          using cin by (metis (mono_tags, lifting) dropWhile_eq_Nil_conv hd_dropWhile list.collapse)
        have s2: "s2 = ?w @ c # ?r" using dw by (metis takeWhile_dropWhile_id)
        have "length ?r \<le> length s2"
          using length_dropWhile_le[of "\<lambda>d. d \<noteq> c" s2] by simp
        then have lr: "length ?r < length s" using l2 by simp
        have cw: "c \<notin> set ?w" by (metis (mono_tags, lifting) set_takeWhileD)
        have "fields_of (takeWhile isSpaceByte s @ c # ?w @ c # ?r)
                (cons_field ?w (splitQuotedFields ?r))"
          using sp True cw less[OF lr] by (rule fields_of.quoted)
        moreover have "takeWhile isSpaceByte s @ c # ?w @ c # ?r = s"
          using decomp Cons s2 by metis
        ultimately show ?thesis using split_quote[OF Cons True] cin by simp
      qed
    next
      case False
      let ?w = "takeWhile (\<lambda>d. \<not> isSpaceByte d) s2"
      let ?r = "dropWhile (\<lambda>d. \<not> isSpaceByte d) s2"
      have tw: "takeWhile (\<lambda>d. \<not> isSpaceByte d) (c # s2) = c # ?w" using nc by simp
      have dw: "dropWhile (\<lambda>d. \<not> isSpaceByte d) (c # s2) = ?r" using nc by simp
      have "length ?r \<le> length s2" by (rule length_dropWhile_le)
      then have lr: "length ?r < length s" using l2 by simp
      have w: "\<forall>d\<in>set (c # ?w). \<not> isSpaceByte d"
        using nc by (auto dest: set_takeWhileD)
      have r: "?r = [] \<or> isSpaceByte (hd ?r)"
        using hd_dropWhile[of "\<lambda>d. \<not> isSpaceByte d" s2] by blast
      have "fields_of (takeWhile isSpaceByte s @ (c # ?w) @ ?r)
                (cons_field (c # ?w) (splitQuotedFields ?r))"
        using sp w False r less[OF lr] by (rule fields_of.bare)
      moreover have "takeWhile isSpaceByte s @ (c # ?w) @ ?r = s"
        using decomp Cons by simp
      ultimately show ?thesis using split_bare[OF Cons False] tw dw by simp
    qed
  qed
qed

text \<open>
  Claim C8, as amended. \<^verbatim>\<open>splitQuotedFields\<close> returns the error exactly when a quote
  byte opens a field and the same byte does not occur later in the input; otherwise
  it returns, in order, the fields of the input, a quoted field without its quotes
  and with its bytes unchanged, every other field a maximal run of bytes that are
  not white space. White space separates a field from the next one except after a
  closing quote, where the next field starts at once.
\<close>

theorem splitQuotedFields_spec: "splitQuotedFields s = r \<longleftrightarrow> fields_of s r"
  using fields_of_complete fields_of_sound by blast

theorem splitQuotedFields_spec_witness:
  "fields_of ''a 'b c'd  e'' (Inr [''a'', ''b c'', ''d'', ''e''])
   \<and> fields_of ''a 'b'' (Inl (Unterminated (CHR 0x27)))"
  using splitQuotedFields_spec[of "''a 'b c'd  e''" "Inr [''a'', ''b c'', ''d'', ''e'']"]
    splitQuotedFields_spec[of "''a 'b''" "Inl (Unterminated (CHR 0x27))"]
  by (simp add: splitQuotedFields_def isSpaceByte_def)

text \<open>
  Claim C8 as stated fails: the fields returned need not be separated by white
  space. The input of four bytes, quote, a, quote, b, has no white space and two
  fields.
\<close>

theorem splitQuotedFields_adjacent_counterexample:
  "splitQuotedFields [CHR 0x27, CHR ''a'', CHR 0x27, CHR ''b''] = Inr [''a'', ''b'']
   \<and> \<not> list_ex isSpaceByte [CHR 0x27, CHR ''a'', CHR 0x27, CHR ''b'']"
  by (simp add: splitQuotedFields_def isSpaceByte_def)

subsection \<open>changeVersion of govers.go\<close>

lemma fixImports_ok:
  "list_all wellQuoted vs \<Longrightarrow>
   fixImports s vs ch = Inr (map (fixImport s) vs, ch \<or> list_ex (matchesCanon s) vs)"
proof (induction vs arbitrary: ch)
  case Nil
  then show ?case by simp
next
  case (Cons v vs)
  then obtain p where v: "v = Quoted p" by (cases v) auto
  from Cons have ih: "\<And>c. fixImports s vs c = Inr (map (fixImport s) vs, c \<or> list_ex (matchesCanon s) vs)"
    by simp
  show ?case by (simp add: v ih)
qed

lemma fixImports_panic:
  "\<not> list_all wellQuoted vs \<Longrightarrow> \<exists>x. fixImports s vs ch = Inl x"
proof (induction vs arbitrary: ch)
  case Nil
  then show ?case by simp
next
  case (Cons v vs)
  show ?case
  proof (cases v)
    case (Malformed t)
    then show ?thesis by simp
  next
    case (Quoted p)
    with Cons.prems have "\<not> list_all wellQuoted vs" by simp
    then have "\<And>c. \<exists>x. fixImports s vs c = Inl x" using Cons.IH by blast
    then obtain x y where "fixImports s vs True = Inl x" "fixImports s vs ch = Inl y" by metis
    then show ?thesis using Quoted by simp
  qed
qed

lemma fixImports_fields:
  "fixPackage s' = fixPackage s \<Longrightarrow> fixPackageCanon s' = fixPackageCanon s \<Longrightarrow>
   fixImports s' vs ch = fixImports s vs ch"
  by (induction vs arbitrary: ch) (auto split: option.splits sum.splits)

lemma fixImports_logf [simp]: "fixImports (logf m s) vs ch = fixImports s vs ch"
  by (rule fixImports_fields) (simp_all add: logf_def)

lemma files_logf [simp]: "files (logf m s) = files s"
  by (simp add: logf_def)

lemma fixImport_logf [simp]: "fixImport (logf m s) = fixImport s"
proof
  fix v show "fixImport (logf m s) v = fixImport s v" by (cases v) (simp_all add: logf_def)
qed

lemma changeVersion_cases:
  "files s path = Source f e cr \<Longrightarrow>
   (case changeVersion path s of
      (r, s') \<Rightarrow>
        if \<not> list_all wellQuoted (ImportSpecs f) then
          (\<exists>x. r = Inl x) \<and> files s' = files s
        else if \<not> list_ex (matchesCanon s) (ImportSpecs f) then
          r = Inr False \<and> files s' = files s
            \<and> stderr s' = stderr s @ (if e then [CannotParse path] else [])
        else
          r = Inr True
            \<and> files s' =
                (if cr then (files s)(path := Source (f\<lparr>ImportSpecs := map (fixImport s) (ImportSpecs f)\<rparr>) False True)
                 else files s))"
proof -
  assume src: "files s path = Source f e cr"
  let ?s1 = "if e then logf (CannotParse path) s else s"
  have f1: "files ?s1 = files s" by simp
  show ?thesis
  proof (cases "list_all wellQuoted (ImportSpecs f)")
    case False
    then obtain x where "fixImports ?s1 (ImportSpecs f) False = Inl x"
      using fixImports_panic by blast
    then show ?thesis using src False by (simp add: changeVersion_def Let_def)
  next
    case True
    have fi: "fixImports ?s1 (ImportSpecs f) False =
        Inr (map (fixImport s) (ImportSpecs f), list_ex (matchesCanon s) (ImportSpecs f))"
      using fixImports_ok[OF True, of s False] by simp
    show ?thesis
    proof (cases "list_ex (matchesCanon s) (ImportSpecs f)")
      case False
      then show ?thesis using src True fi
        by (simp add: changeVersion_def Let_def logf_def)
    next
      case m: True
      show ?thesis using src True fi m
        by (cases cr) (simp_all add: changeVersion_def Let_def writeFile_def)
    qed
  qed
qed





lemma fixImport_nth:
  "ImportSpecs f ! i = Quoted p \<Longrightarrow> i < length (ImportSpecs f) \<Longrightarrow>
   map (fixImport s) (ImportSpecs f) ! i =
     Quoted (if canonicalPath p = fixPackageCanon s then fixPackage s else p)"
  by simp

text \<open>
  Claim C1, as amended. In a file that \<^verbatim>\<open>changeVersion\<close> of govers.go rewrites,
  every import path whose canonical form is that of the new package path is
  replaced, as a whole, by the new package path, and every other import path is
  left as it is. The comparison is between whole paths: an import of a subpackage,
  of which only a prefix has the canonical form of the new package path, is not
  rewritten.
\<close>

theorem changeVersion_imports:
  assumes "files s path = Source f e True"
    and "list_all wellQuoted (ImportSpecs f)"
    and "list_ex (matchesCanon s) (ImportSpecs f)"
  shows "\<exists>f'. files (snd (changeVersion path s)) path = Source f' False True
           \<and> other f' = other f
           \<and> length (ImportSpecs f') = length (ImportSpecs f)
           \<and> (\<forall>i p. i < length (ImportSpecs f) \<and> ImportSpecs f ! i = Quoted p \<longrightarrow>
                 ImportSpecs f' ! i =
                   Quoted (if canonicalPath p = fixPackageCanon s then fixPackage s else p))"
proof -
  let ?f' = "f\<lparr>ImportSpecs := map (fixImport s) (ImportSpecs f)\<rparr>"
  have "files (snd (changeVersion path s)) = (files s)(path := Source ?f' False True)"
    using changeVersion_cases[OF assms(1)] assms(2,3) by (simp split: prod.splits)
  then have "files (snd (changeVersion path s)) path = Source ?f' False True" by simp
  moreover have "other ?f' = other f" by simp
  moreover have "length (ImportSpecs ?f') = length (ImportSpecs f)" by simp
  moreover have "\<forall>i p. i < length (ImportSpecs f) \<and> ImportSpecs f ! i = Quoted p \<longrightarrow>
                 ImportSpecs ?f' ! i =
                   Quoted (if canonicalPath p = fixPackageCanon s then fixPackage s else p)"
    by simp
  ultimately show ?thesis by blast
qed

theorem changeVersion_imports_witness:
  "\<exists>f'. files (snd (changeVersion ''/w/a/f.go'' ex_ctxt)) ''/w/a/f.go'' = Source f' False True
      \<and> ImportSpecs f' ! 0 = Quoted ''x/v2/y'' \<and> ImportSpecs f' ! 1 = Quoted ''dep''"
proof -
  have a: "files ex_ctxt ''/w/a/f.go'' =
      Source \<lparr>ImportSpecs = [Quoted ''x/v1/y'', Quoted ''dep''], other = ''package a; F''\<rparr> False True"
    by (simp add: ex_ctxt_def init_def ex_env_def ex_disk_def)
  have c: "fixPackageCanon ex_ctxt = ''x0y''" "fixPackage ex_ctxt = ''x/v2/y''"
    by (simp_all add: ex_ctxt_def match_slash_version_def isDigit_def)
  have b: "list_all wellQuoted (ImportSpecs \<lparr>ImportSpecs = [Quoted ''x/v1/y'', Quoted ''dep''], other = ''package a; F''\<rparr>)"
    by simp
  have m: "list_ex (matchesCanon ex_ctxt) (ImportSpecs \<lparr>ImportSpecs = [Quoted ''x/v1/y'', Quoted ''dep''], other = ''package a; F''\<rparr>)"
    by (simp add: c match_slash_version_def isDigit_def)
  from changeVersion_imports[OF a b m] obtain f' where
    f: "files (snd (changeVersion ''/w/a/f.go'' ex_ctxt)) ''/w/a/f.go'' = Source f' False True"
    and i: "\<forall>i p. i < length (ImportSpecs \<lparr>ImportSpecs = [Quoted ''x/v1/y'', Quoted ''dep''], other = ''package a; F''\<rparr>)
           \<and> ImportSpecs \<lparr>ImportSpecs = [Quoted ''x/v1/y'', Quoted ''dep''], other = ''package a; F''\<rparr> ! i = Quoted p \<longrightarrow>
                 ImportSpecs f' ! i =
                   Quoted (if canonicalPath p = fixPackageCanon ex_ctxt then fixPackage ex_ctxt else p)"
    by blast
  from i[rule_format, of 0 "''x/v1/y''"] have "ImportSpecs f' ! 0 = Quoted ''x/v2/y''"
    by (simp add: c match_slash_version_def isDigit_def)
  moreover from i[rule_format, of 1 "''dep''"] have "ImportSpecs f' ! 1 = Quoted ''dep''"
    by (simp add: c match_slash_version_def isDigit_def)
  ultimately show ?thesis using f by blast
qed

text \<open>
  Claim C1 as stated fails: the import \<^verbatim>\<open>x/v1/y/sub\<close> has the prefix
  \<^verbatim>\<open>x/v1/y\<close>, of the canonical form of the new package path \<^verbatim>\<open>x/v2/y\<close>, and
  \<^verbatim>\<open>changeVersion\<close> leaves the file alone.
\<close>

theorem changeVersion_prefix_counterexample:
  "canonicalPath (take 6 ''x/v1/y/sub'') = fixPackageCanon ex_ctxt
   \<and> files ex_ctxt ''/w/a/g.go'' =
       Source \<lparr>ImportSpecs = [Quoted ''x/v1/y/sub''], other = ''package a; G''\<rparr> False True
   \<and> changeVersion ''/w/a/g.go'' ex_ctxt = (Inr False, ex_ctxt)"
  by (simp add: changeVersion_def ex_ctxt_def init_def ex_env_def ex_disk_def
      match_slash_version_def isDigit_def Let_def)

subsection \<open>fixPath\<close>

lemmas pat_eval = pathVersionPat_def compiled_def vers_rests_def after_digits_def isVersSep_def
  isDigit_def match_versRe_def Let_def

text \<open>
  Claim C5. \<^verbatim>\<open>fixPath\<close> substitutes a prefix under the guard of the pattern: when
  the pattern does not match \<open>p\<close> the result is \<open>p\<close>; when it matches, with the
  first group ending at \<open>i\<close>, the result is the new package path followed by what
  follows the matched prefix in \<open>p\<close>.
\<close>

theorem fixPath_prefix_substitution:
  "(fixPackagePat s p = None \<longrightarrow> fixPath s p = p)
   \<and> (\<forall>i. fixPackagePat s p = Some i \<longrightarrow> fixPath s p = fixPackage s @ drop i p)"
proof (intro conjI allI impI)
  assume "fixPackagePat s p = None"
  then show "fixPath s p = p" by (simp add: fixPath_def)
next
  fix i
  assume m: "fixPackagePat s p = Some i"
  show "fixPath s p = fixPackage s @ drop i p"
  proof (cases "take i p = fixPackage s")
    case True
    then have "fixPackage s @ drop i p = p" by (metis append_take_drop_id)
    then show ?thesis using m True by (simp add: fixPath_def)
  next
    case False
    then show ?thesis using m by (simp add: fixPath_def)
  qed
qed

theorem fixPath_prefix_substitution_witness:
  "fixPath ex_ctxt_tomb ''gopkg.in/tomb.v2/sub'' = ''gopkg.in/tomb.v3/sub''
   \<and> fixPath ex_ctxt_tomb ''fmt'' = ''fmt''"
proof -
  have a: "fixPackagePat ex_ctxt_tomb ''gopkg.in/tomb.v2/sub'' = Some 16"
    by (simp add: ex_ctxt_tomb_def ctxt_of_arg_def pat_eval)
  have b: "fixPackagePat ex_ctxt_tomb ''fmt'' = None"
    by (simp add: ex_ctxt_tomb_def ctxt_of_arg_def pat_eval)
  have c: "fixPackage ex_ctxt_tomb = ''gopkg.in/tomb.v3''"
    by (simp add: ex_ctxt_tomb_def ctxt_of_arg_def)
  from fixPath_prefix_substitution[of ex_ctxt_tomb "''gopkg.in/tomb.v2/sub''"] a
  have "fixPath ex_ctxt_tomb ''gopkg.in/tomb.v2/sub'' = fixPackage ex_ctxt_tomb @ drop 16 ''gopkg.in/tomb.v2/sub''"
    by blast
  moreover from fixPath_prefix_substitution[of ex_ctxt_tomb "''fmt''"] b
  have "fixPath ex_ctxt_tomb ''fmt'' = ''fmt''" by blast
  ultimately show ?thesis by (simp add: c)
qed

text \<open>
  In govers.go the rewrite of an import is idempotent, whatever the new package path.
\<close>

lemma fixImport_idempotent:
  "fixPackageCanon s = canonicalPath (fixPackage s) \<Longrightarrow>
   fixImport s (fixImport s v) = fixImport s v"
  by (cases v) simp_all

text \<open>
  Claim C9 fails in the last revision. For the argument \<^verbatim>\<open>a/v12/2\<close>
  \<^verbatim>\<open>pathVersionPat\<close> replaces the match \<^verbatim>\<open>/v12/\<close> of \<^verbatim>\<open>versRe\<close>, slash at the end
  included, so the pattern is \<^verbatim>\<open>^(a[/|\.]v[0-9]+(-unstable)?2)(/|$)\<close>. It matches
  the new package path itself, with \<^verbatim>\<open>a/v12\<close> as the first group, and every
  application of \<^verbatim>\<open>fixPath\<close> adds \<^verbatim>\<open>/2\<close>.
\<close>

theorem fixPath_not_idempotent:
  "pathVersionPat ''a/v12/2'' \<noteq> None
   \<and> fixPackage ex_ctxt_shift = ''a/v12/2''
   \<and> fixPackagePat ex_ctxt_shift ''a/v12/2'' = Some 5
   \<and> fixPath ex_ctxt_shift ''a/v12/2'' = ''a/v12/2/2''
   \<and> fixPath ex_ctxt_shift (fixPath ex_ctxt_shift ''a/v12/2'') = ''a/v12/2/2/2''"
  by (simp add: fixPath_def ex_ctxt_shift_def ctxt_of_arg_def pat_eval)

subsection \<open>The dependency check of govers.go\<close>

lemma extends_refl [simp]: "extends s s"
  by (simp add: extends_def)

lemma extends_trans: "extends s t \<Longrightarrow> extends t u \<Longrightarrow> extends s u"
  unfolding extends_def
  apply (intro conjI)
             apply simp
            apply simp
           apply simp
          apply simp
         apply simp
        apply simp
       apply blast
      apply simp
     apply (metis)
    apply (metis append.assoc)
   apply (metis append.assoc)
  apply blast
  done

lemma extends_logf [simp]: "extends s (logf m s)"
  by (simp add: extends_def logf_def)

lemma extends_import: "extends s (s\<lparr>imported := imported s @ [p], checked := insert q (checked s)\<rparr>)"
  by (auto simp: extends_def)

lemma extends_failed: "extends s (s\<lparr>failed := True\<rparr>)"
  by (auto simp: extends_def)

lemma extends_needsEdit:
  "editPkgs s p = Some ep \<Longrightarrow> extends s (s\<lparr>editPkgs := (editPkgs s)(p \<mapsto> ep\<lparr>needsEdit := True\<rparr>)\<rparr>)"
  by (auto simp: extends_def)

lemma checkPackage_rel:
  assumes R_refl: "\<And>s. R s s"
    and R_trans: "\<And>s t u. R s t \<Longrightarrow> R t u \<Longrightarrow> R s u"
    and R_err: "\<And>b s path pkg e. G b \<Longrightarrow> path \<notin> checked s \<Longrightarrow> Import b path ''.'' = (pkg, Some e) \<Longrightarrow>
        R s (if e = NoGoError
             then s\<lparr>imported := imported s @ [path], checked := insert (ImportPath pkg) (checked s)\<rparr>
             else logf (CannotImport path)
                    (s\<lparr>imported := imported s @ [path], checked := insert (ImportPath pkg) (checked s)\<rparr>))"
    and R_pkg: "\<And>b n s path pkg s'. G b \<Longrightarrow> path \<notin> checked s \<Longrightarrow> Import b path ''.'' = (pkg, None) \<Longrightarrow>
        checkImports b n path (Imports pkg)
          (s\<lparr>imported := imported s @ [path], checked := insert (ImportPath pkg) (checked s)\<rparr>) = Some s' \<Longrightarrow>
        R (s\<lparr>imported := imported s @ [path], checked := insert (ImportPath pkg) (checked s)\<rparr>) s' \<Longrightarrow>
        R s s'"
    and R_fail: "\<And>s path impPath. impPath \<noteq> ''C'' \<Longrightarrow> canonicalPath impPath = fixPackageCanon s \<Longrightarrow>
        impPath \<noteq> fixPackage s \<Longrightarrow> editPkgs s path = None \<Longrightarrow>
        R s (logf (Uses path impPath) (s\<lparr>failed := True\<rparr>))"
    and R_edit: "\<And>s path ep. editPkgs s path = Some ep \<Longrightarrow>
        R s (s\<lparr>editPkgs := (editPkgs s)(path \<mapsto> ep\<lparr>needsEdit := True\<rparr>)\<rparr>)"
  shows "checkPackage b n path s = Some s' \<Longrightarrow> G b \<Longrightarrow> R s s'"
    and "checkImports b n path imps s = Some s' \<Longrightarrow> G b \<Longrightarrow> R s s'"
proof (induction b n path s and b n path imps s arbitrary: s' and s'
       rule: checkPackage_checkImports.induct)
  case (1 b path s)
  then show ?case by simp
next
  case (2 b n path s)
  show ?case
  proof (cases "path \<in> checked s")
    case True
    with "2.prems" show ?thesis by (simp add: R_refl)
  next
    case False
    obtain pkg err where imp: "Import b path ''.'' = (pkg, err)" by (cases "Import b path ''.''")
    let ?s1 = "s\<lparr>imported := imported s @ [path], checked := insert (ImportPath pkg) (checked s)\<rparr>"
    show ?thesis
    proof (cases err)
      case None
      with "2.prems" False imp have r: "checkImports b n path (Imports pkg) ?s1 = Some s'"
        by (simp add: Let_def)
      from "2.IH"[OF False imp[symmetric] refl None r "2.prems"(2)] have "R ?s1 s'" .
      with R_pkg[OF "2.prems"(2) False imp[unfolded None] r] show ?thesis .
    next
      case (Some e)
      with "2.prems" False imp have "s' = (if e = NoGoError then ?s1 else logf (CannotImport path) ?s1)"
        by (simp add: Let_def)
      then show ?thesis using R_err[OF "2.prems"(2) False imp[unfolded Some]] by simp
    qed
  qed
next
  case (3 b n path s)
  then show ?case by (simp add: R_refl)
next
  case (4 b n path impPath imps s)
  show ?case
  proof (cases "impPath = ''C''")
    case True
    with "4.prems" have "checkImports b n path imps s = Some s'" by simp
    from "4.IH"(1)[OF True this "4.prems"(2)] show ?thesis .
  next
    case notC: False
    show ?thesis
    proof (cases "canonicalPath impPath = fixPackageCanon s \<and> impPath \<noteq> fixPackage s")
      case True
      show ?thesis
      proof (cases "editPkgs s path")
        case None
        let ?t = "logf (Uses path impPath) (s\<lparr>failed := True\<rparr>)"
        from "4.prems" notC True None have r: "checkImports b n path imps ?t = Some s'" by simp
        have "R s ?t" using R_fail[OF notC _ _ None] True by blast
        with "4.IH"(2)[OF notC True None r "4.prems"(2)] show ?thesis by (rule R_trans[rotated])
      next
        case (Some ep)
        let ?t = "s\<lparr>editPkgs := (editPkgs s)(path \<mapsto> ep\<lparr>needsEdit := True\<rparr>)\<rparr>"
        from "4.prems" notC True Some obtain u where
          u: "checkPackage b n (fixPackage s) ?t = Some u" and r: "checkImports b n path imps u = Some s'"
          by (auto split: option.splits)
        have "R s ?t" using Some by (rule R_edit)
        with "4.IH"(3)[OF notC True Some u "4.prems"(2)] have "R s u" by (rule R_trans[rotated])
        with "4.IH"(4)[OF notC True Some u r "4.prems"(2)] show ?thesis by (rule R_trans[rotated])
      qed
    next
      case False
      from "4.prems" notC False obtain u where
        u: "checkPackage b n impPath s = Some u" and r: "checkImports b n path imps u = Some s'"
        by (auto split: option.splits)
      from "4.IH"(5)[OF notC False u "4.prems"(2)] "4.IH"(6)[OF notC False u r "4.prems"(2)] show ?thesis
        by (rule R_trans)
    qed
  qed
qed

lemma checkPackage_extends:
  "checkPackage b n path s = Some s' \<Longrightarrow> extends s s'"
  "checkImports b n path imps s = Some s' \<Longrightarrow> extends s s'"
proof -
  show "checkPackage b n path s = Some s' \<Longrightarrow> extends s s'"
    by (rule checkPackage_rel(1)[where R = extends and G = "\<lambda>b. True"])
       (auto intro: extends_trans extends_import extends_failed extends_needsEdit
          extends_trans[OF extends_import extends_logf] extends_trans[OF extends_failed extends_logf])
  show "checkImports b n path imps s = Some s' \<Longrightarrow> extends s s'"
    by (rule checkPackage_rel(2)[where R = extends and G = "\<lambda>b. True"])
       (auto intro: extends_trans extends_import extends_failed extends_needsEdit
          extends_trans[OF extends_import extends_logf] extends_trans[OF extends_failed extends_logf])
qed

lemma extends_checked: "extends s s' \<Longrightarrow> checked s \<subseteq> checked s'"
  by (simp add: extends_def)

lemma unvisited_mono:
  assumes "finite (importable b)" "extends s s'"
  shows "card (importable b - checked s') \<le> card (importable b - checked s)"
  by (rule card_mono) (use assms extends_checked in auto)

lemma checkImports_terminates:
  assumes fin: "finite (importable b)"
    and IH: "\<And>path s. card (importable b - checked s) < n \<Longrightarrow> \<exists>s'. checkPackage b n path s = Some s'"
  shows "card (importable b - checked s) < n \<Longrightarrow> \<exists>s'. checkImports b n path imps s = Some s'"
proof (induction imps arbitrary: s)
  case Nil
  then show ?case by simp
next
  case (Cons impPath imps)
  have step: "\<And>t p. extends s t \<Longrightarrow> \<exists>s'. (case checkPackage b n p t of None \<Rightarrow> None
                | Some u \<Rightarrow> checkImports b n path imps u) = Some s'"
  proof -
    fix t p
    assume e: "extends s t"
    have c: "card (importable b - checked t) < n"
      using unvisited_mono[OF fin e] Cons.prems by simp
    from IH[OF c] obtain u where u: "checkPackage b n p t = Some u" by blast
    have "card (importable b - checked u) < n"
      using unvisited_mono[OF fin checkPackage_extends(1)[OF u]] c by simp
    from Cons.IH[OF this] u show "\<exists>s'. (case checkPackage b n p t of None \<Rightarrow> None
                | Some u \<Rightarrow> checkImports b n path imps u) = Some s'" by simp
  qed
  show ?case
  proof (cases "impPath = ''C''")
    case True
    then show ?thesis using Cons.IH[OF Cons.prems] by simp
  next
    case notC: False
    show ?thesis
    proof (cases "canonicalPath impPath = fixPackageCanon s \<and> impPath \<noteq> fixPackage s")
      case True
      show ?thesis
      proof (cases "editPkgs s path")
        case None
        have "checked (logf (Uses path impPath) (s\<lparr>failed := True\<rparr>)) = checked s"
          by (simp add: logf_def)
        then have "card (importable b - checked (logf (Uses path impPath) (s\<lparr>failed := True\<rparr>))) < n"
          using Cons.prems by simp
        from Cons.IH[OF this] show ?thesis using notC True None by simp
      next
        case (Some ep)
        from step[OF extends_needsEdit[OF Some], of "fixPackage s"] show ?thesis
          using notC True Some by simp
      qed
    next
      case False
      from step[OF extends_refl, of impPath] show ?thesis using notC False by auto
    qed
  qed
qed

lemma checkPackage_terminates:
  assumes g: "import_graph b"
  shows "card (importable b - checked s) < n \<Longrightarrow> \<exists>s'. checkPackage b n path s = Some s'"
proof (induction n arbitrary: path s)
  case 0
  then show ?case by simp
next
  case (Suc n)
  have fin: "finite (importable b)" using g by (simp add: import_graph_def)
  show ?case
  proof (cases "path \<in> checked s")
    case True
    then show ?thesis by simp
  next
    case False
    obtain pkg err where imp: "Import b path ''.'' = (pkg, err)" by (cases "Import b path ''.''")
    have ip: "ImportPath pkg = path" using g imp by (auto simp: import_graph_def dest: spec[of _ path])
    let ?s1 = "s\<lparr>imported := imported s @ [path], checked := insert (ImportPath pkg) (checked s)\<rparr>"
    show ?thesis
    proof (cases err)
      case (Some e)
      then show ?thesis using False imp by (simp add: Let_def)
    next
      case None
      then have pin: "path \<in> importable b - checked s" using imp False by (simp add: importable_def)
      have eq: "importable b - checked ?s1 = (importable b - checked s) - {path}"
        using ip by auto
      have "card ((importable b - checked s) - {path}) < card (importable b - checked s)"
        by (rule card_Diff1_less) (use fin pin in auto)
      then have "card (importable b - checked ?s1) < card (importable b - checked s)"
        by (simp only: eq)
      then have "card (importable b - checked ?s1) < n" using Suc.prems by simp
      from checkImports_terminates[OF fin Suc.IH this, of path "Imports pkg"]
      show ?thesis using False imp None by (simp add: Let_def)
    qed
  qed
qed

lemma checkPackage_fuel:
  "checkPackage b n path s = Some s' \<Longrightarrow> n \<le> m \<Longrightarrow> checkPackage b m path s = Some s'"
  "checkImports b n path imps s = Some s' \<Longrightarrow> n \<le> m \<Longrightarrow> checkImports b m path imps s = Some s'"
proof (induction b n path s and b n path imps s arbitrary: s' m and s' m
       rule: checkPackage_checkImports.induct)
  case (1 b path s)
  then show ?case by simp
next
  case (2 b n path s)
  from "2.prems"(2) obtain m' where m: "m = Suc m'" and le: "n \<le> m'" by (cases m) auto
  show ?case
  proof (cases "path \<in> checked s")
    case True
    with "2.prems" m show ?thesis by simp
  next
    case False
    obtain pkg err where imp: "Import b path ''.'' = (pkg, err)" by (cases "Import b path ''.''")
    show ?thesis
    proof (cases err)
      case None
      with "2.prems" False imp have r: "checkImports b n path (Imports pkg)
          (s\<lparr>imported := imported s @ [path], checked := insert (ImportPath pkg) (checked s)\<rparr>) = Some s'"
        by (simp add: Let_def)
      from "2.IH"[OF False imp[symmetric] refl None r le] show ?thesis
        using False imp None m by (simp add: Let_def)
    next
      case (Some e)
      with "2.prems" False imp m show ?thesis by (simp add: Let_def)
    qed
  qed
next
  case (3 b n path s)
  then show ?case by simp
next
  case (4 b n path impPath imps s)
  show ?case
  proof (cases "impPath = ''C''")
    case True
    with "4.prems" have "checkImports b n path imps s = Some s'" by simp
    from "4.IH"(1)[OF True this "4.prems"(2)] show ?thesis using True by simp
  next
    case notC: False
    show ?thesis
    proof (cases "canonicalPath impPath = fixPackageCanon s \<and> impPath \<noteq> fixPackage s")
      case True
      show ?thesis
      proof (cases "editPkgs s path")
        case None
        let ?t = "logf (Uses path impPath) (s\<lparr>failed := True\<rparr>)"
        from "4.prems" notC True None have r: "checkImports b n path imps ?t = Some s'" by simp
        from "4.IH"(2)[OF notC True None r "4.prems"(2)] show ?thesis using notC True None by simp
      next
        case (Some ep)
        let ?t = "s\<lparr>editPkgs := (editPkgs s)(path \<mapsto> ep\<lparr>needsEdit := True\<rparr>)\<rparr>"
        from "4.prems" notC True Some obtain u where
          u: "checkPackage b n (fixPackage s) ?t = Some u" and r: "checkImports b n path imps u = Some s'"
          by (auto split: option.splits)
        from "4.IH"(3)[OF notC True Some u "4.prems"(2)] "4.IH"(4)[OF notC True Some u r "4.prems"(2)]
        show ?thesis using notC True Some by simp
      qed
    next
      case False
      from "4.prems" notC False obtain u where
        u: "checkPackage b n impPath s = Some u" and r: "checkImports b n path imps u = Some s'"
        by (auto split: option.splits)
      from "4.IH"(5)[OF notC False u "4.prems"(2)] "4.IH"(6)[OF notC False u r "4.prems"(2)]
      show ?thesis using notC False by auto
    qed
  qed
qed

lemma checkPackage_once:
  assumes g: "import_graph b"
  shows "checkPackage b n path s = Some s' \<Longrightarrow> once s \<Longrightarrow> once s'"
proof -
  have "checkPackage b n path s = Some s' \<Longrightarrow> import_graph b \<Longrightarrow> (once s \<longrightarrow> once s')"
  proof (rule checkPackage_rel(1)[where R = "\<lambda>s s'. once s \<longrightarrow> once s'" and G = import_graph])
    fix b and s :: ctxt and path pkg e
    assume "import_graph b" "path \<notin> checked s" "Import b path ''.'' = (pkg, Some e)"
    then have "ImportPath pkg = path" by (auto simp: import_graph_def dest: spec[of _ path])
    then show "once s \<longrightarrow> once (if e = NoGoError
             then s\<lparr>imported := imported s @ [path], checked := insert (ImportPath pkg) (checked s)\<rparr>
             else logf (CannotImport path)
                    (s\<lparr>imported := imported s @ [path], checked := insert (ImportPath pkg) (checked s)\<rparr>))"
      using \<open>path \<notin> checked s\<close> by (auto simp: once_def logf_def)
  next
    fix b n and s s' :: ctxt and path pkg
    assume "import_graph b" "path \<notin> checked s" "Import b path ''.'' = (pkg, None)"
      and r: "once (s\<lparr>imported := imported s @ [path], checked := insert (ImportPath pkg) (checked s)\<rparr>) \<longrightarrow> once s'"
    then have "ImportPath pkg = path" by (auto simp: import_graph_def dest: spec[of _ path])
    then show "once s \<longrightarrow> once s'" using r \<open>path \<notin> checked s\<close> by (auto simp: once_def)
  qed (auto simp: once_def logf_def)
  then show "checkPackage b n path s = Some s' \<Longrightarrow> once s \<Longrightarrow> once s'" using g by blast
qed

lemma canonicalPath_Nil: "canonicalPath p = [] \<Longrightarrow> p = []"
  by (cases p) (auto split: option.splits)

lemma canonicalPath_C: "canonicalPath p = ''C'' \<Longrightarrow> p = ''C''"
  by (cases p) (auto split: option.splits dest: canonicalPath_Nil)

lemma extends_stderr: "extends s s' \<Longrightarrow> m \<in> set (stderr s) \<Longrightarrow> m \<in> set (stderr s')"
  by (auto simp: extends_def)

lemma extends_failed_mono: "extends s s' \<Longrightarrow> failed s \<Longrightarrow> failed s'"
  by (simp add: extends_def)

lemma checkImports_reports:
  "checkImports b n path imps s = Some s' \<Longrightarrow> editPkgs s path = None \<Longrightarrow>
   imp \<in> set imps \<Longrightarrow> imp \<noteq> ''C'' \<Longrightarrow> canonicalPath imp = fixPackageCanon s \<Longrightarrow>
   imp \<noteq> fixPackage s \<Longrightarrow> failed s' \<and> Uses path imp \<in> set (stderr s')"
proof (induction imps arbitrary: s)
  case Nil
  then show ?case by simp
next
  case (Cons impPath imps)
  have keep: "\<And>t. extends s t \<Longrightarrow> editPkgs t path = None \<and> fixPackageCanon t = fixPackageCanon s
      \<and> fixPackage t = fixPackage s"
    using Cons.prems(2) by (auto simp: extends_def domIff dest!: arg_cong[where f = "\<lambda>A. path \<in> A"])
  show ?case
  proof (cases "impPath = ''C''")
    case True
    with Cons.prems have "checkImports b n path imps s = Some s'" "imp \<in> set imps" by auto
    from Cons.IH[OF this(1) Cons.prems(2) this(2) Cons.prems(4,5,6)] show ?thesis .
  next
    case notC: False
    show ?thesis
    proof (cases "canonicalPath impPath = fixPackageCanon s \<and> impPath \<noteq> fixPackage s")
      case True
      let ?t = "logf (Uses path impPath) (s\<lparr>failed := True\<rparr>)"
      from Cons.prems(1,2) notC True have r: "checkImports b n path imps ?t = Some s'" by simp
      have et: "extends s ?t" using extends_trans[OF extends_failed extends_logf] .
      show ?thesis
      proof (cases "imp = impPath")
        case True
        have "failed ?t" "Uses path impPath \<in> set (stderr ?t)" by (simp_all add: logf_def)
        then show ?thesis
          using checkPackage_extends(2)[OF r] True extends_stderr extends_failed_mono by blast
      next
        case False
        with Cons.prems(3) have i: "imp \<in> set imps" by simp
        from Cons.IH[OF r _ i Cons.prems(4)] keep[OF et] Cons.prems(5,6) show ?thesis by simp
      qed
    next
      case False
      with Cons.prems(3,5,6) have i: "imp \<in> set imps" by auto
      from Cons.prems(1) notC False obtain u where
        u: "checkPackage b n impPath s = Some u" and r: "checkImports b n path imps u = Some s'"
        by (auto split: option.splits)
      from Cons.IH[OF r _ i Cons.prems(4)] keep[OF checkPackage_extends(1)[OF u]] Cons.prems(5,6)
      show ?thesis by simp
    qed
  qed
qed

lemma inconsistent_use_extends:
  "extends t u \<Longrightarrow> inconsistent_use b u q imp \<Longrightarrow> inconsistent_use b t q imp"
proof -
  assume e: "extends t u" and i: "inconsistent_use b u q imp"
  from e have "dom (editPkgs u) = dom (editPkgs t)" by (simp add: extends_def)
  then have "editPkgs u q = None \<longleftrightarrow> editPkgs t q = None" by (metis domIff)
  then show ?thesis using e i by (auto simp: inconsistent_use_def extends_def)
qed

lemma checks_refl: "checks b s s"
  by (simp add: checks_def reported_def)

lemma checks_trans:
  assumes "checks b s t" "checks b t u"
  shows "checks b s u"
proof -
  from assms have st: "extends s t" and tu: "extends t u" by (simp_all add: checks_def)
  have su: "extends s u" using st tu by (rule extends_trans)
  have "reported b s u" if c: "fixPackageCanon s = canonicalPath (fixPackage s)"
  proof -
    from c st have ct: "fixPackageCanon t = canonicalPath (fixPackage t)" by (simp add: extends_def)
    from assms c ct have r1: "reported b s t" and r2: "reported b t u" by (simp_all add: checks_def)
    show ?thesis unfolding reported_def
    proof (intro allI impI)
      fix q imp
      assume a: "q \<in> set (imported u) - set (imported s) \<and> inconsistent_use b u q imp"
      show "failed u \<and> Uses q imp \<in> set (stderr u)"
      proof (cases "q \<in> set (imported t)")
        case True
        with a have "q \<in> set (imported t) - set (imported s)" by simp
        moreover have "inconsistent_use b t q imp" using a inconsistent_use_extends[OF tu] by blast
        ultimately have "failed t \<and> Uses q imp \<in> set (stderr t)" using r1 by (auto simp: reported_def)
        then show ?thesis using extends_stderr[OF tu] extends_failed_mono[OF tu] by blast
      next
        case False
        with a have "q \<in> set (imported u) - set (imported t)" by simp
        then show ?thesis using a r2 by (auto simp: reported_def)
      qed
    qed
  qed
  then show ?thesis using su by (simp add: checks_def)
qed

lemma checkPackage_checks:
  "checkPackage b n path s = Some s' \<Longrightarrow> checks b s s'"
proof -
  have "checkPackage b n path s = Some s' \<Longrightarrow> b = b \<Longrightarrow> checks b s s'"
  proof (rule checkPackage_rel(1)[where R = "checks b" and G = "\<lambda>c. c = b"])
    fix s show "checks b s s" by (rule checks_refl)
  next
    fix s t u assume "checks b s t" "checks b t u" then show "checks b s u" by (rule checks_trans)
  next
    fix c and s :: ctxt and path and pkg :: bpkg and e
    assume c: "c = b" and "path \<notin> checked s" and imp: "Import c path ''.'' = (pkg, Some e)"
    let ?s1 = "s\<lparr>imported := imported s @ [path], checked := insert (ImportPath pkg) (checked s)\<rparr>"
    let ?r = "if e = NoGoError then ?s1 else logf (CannotImport path) ?s1"
    have e: "extends s ?r" using extends_import extends_trans[OF extends_import extends_logf] by simp
    have "set (imported ?r) - set (imported s) \<subseteq> {path}" by (auto simp: logf_def)
    moreover have "\<not> inconsistent_use b t path i" for t i
      using imp c by (simp add: inconsistent_use_def)
    ultimately have "reported b s ?r" unfolding reported_def by blast
    then show "checks b s ?r" using e by (simp add: checks_def)
  next
    fix c n and s s' :: ctxt and path and pkg :: bpkg
    let ?s1 = "s\<lparr>imported := imported s @ [path], checked := insert (ImportPath pkg) (checked s)\<rparr>"
    assume c: "c = b" and "path \<notin> checked s" and imp: "Import c path ''.'' = (pkg, None)"
      and loop: "checkImports c n path (Imports pkg) ?s1 = Some s'"
      and r: "checks b ?s1 s'"
    have e1: "extends s ?s1" by (rule extends_import)
    from r have e2: "extends ?s1 s'" by (simp add: checks_def)
    have e: "extends s s'" using e1 e2 by (rule extends_trans)
    have "reported b s s'" if canon: "fixPackageCanon s = canonicalPath (fixPackage s)"
    proof -
      from canon r have r1: "reported b ?s1 s'" by (simp add: checks_def)
      have f: "fixPackageCanon s' = fixPackageCanon s" "fixPackage s' = fixPackage s"
        using e by (simp_all add: extends_def)
      show ?thesis unfolding reported_def
      proof (intro allI impI)
        fix q imp
        assume a: "q \<in> set (imported s') - set (imported s) \<and> inconsistent_use b s' q imp"
        show "failed s' \<and> Uses q imp \<in> set (stderr s')"
        proof (cases "q = path")
          case False
          with a have "q \<in> set (imported s') - set (imported ?s1)" by simp
          then show ?thesis using a r1 by (auto simp: reported_def)
        next
          case True
          from a have iu: "inconsistent_use b ?s1 path imp"
            using inconsistent_use_extends[OF e2] True by blast
          then have n: "editPkgs ?s1 path = None" and i: "imp \<in> set (Imports pkg)"
            and m: "canonicalPath imp = fixPackageCanon ?s1" and d: "imp \<noteq> fixPackage ?s1"
            using imp c by (simp_all add: inconsistent_use_def)
          have "imp \<noteq> ''C''"
          proof
            assume "imp = ''C''"
            with m canon have "canonicalPath (fixPackage s) = ''C''"
              by (simp add: match_slash_version_def)
            then have "fixPackage s = ''C''" by (rule canonicalPath_C)
            with d \<open>imp = ''C''\<close> show False by simp
          qed
          from checkImports_reports[OF loop[unfolded c] n i this m d] True show ?thesis by simp
        qed
      qed
    qed
    then show "checks b s s'" using e by (simp add: checks_def)
  next
    fix s :: ctxt and path impPath
    have "extends s (logf (Uses path impPath) (s\<lparr>failed := True\<rparr>))"
      using extends_trans[OF extends_failed extends_logf] .
    then show "checks b s (logf (Uses path impPath) (s\<lparr>failed := True\<rparr>))"
      by (simp add: checks_def reported_def logf_def)
  next
    fix s :: ctxt and path ep
    assume "editPkgs s path = Some ep"
    then have "extends s (s\<lparr>editPkgs := (editPkgs s)(path \<mapsto> ep\<lparr>needsEdit := True\<rparr>)\<rparr>)"
      by (rule extends_needsEdit)
    then show "checks b s (s\<lparr>editPkgs := (editPkgs s)(path \<mapsto> ep\<lparr>needsEdit := True\<rparr>)\<rparr>)"
      by (simp add: checks_def reported_def)
  qed
  then show "checkPackage b n path s = Some s' \<Longrightarrow> checks b s s'" by simp
qed

lemma same_but_pkgs_refl [simp]: "same_but_pkgs s s"
  by (simp add: same_but_pkgs_def)

lemma same_but_pkgs_trans: "same_but_pkgs s t \<Longrightarrow> same_but_pkgs t u \<Longrightarrow> same_but_pkgs s u"
  by (simp add: same_but_pkgs_def)

lemma same_but_pkgs_logf [simp]: "same_but_pkgs s (logf m s)"
  by (simp add: same_but_pkgs_def logf_def)

lemma same_but_pkgs_upd [simp]: "same_but_pkgs s (s\<lparr>editPkgs := m\<rparr>)"
  by (simp add: same_but_pkgs_def)

lemma walkDir_keeps:
  "same_but_pkgs s (walkDir b path node s)"
  "same_but_pkgs s (snd (walkEntries b path es ep s))"
proof (induction b path node s and b path es ep s rule: walkDir_walkEntries.induct)
  case (3 b path entries s)
  obtain ep s' where w: "walkEntries b path entries \<lparr>goFiles = [], needsEdit = False\<rparr> s = (ep, s')"
    by (cases "walkEntries b path entries \<lparr>goFiles = [], needsEdit = False\<rparr> s")
  with 3 have "same_but_pkgs s s'" by simp
  then show ?case using w same_but_pkgs_trans[OF _ same_but_pkgs_upd]
    by (cases "ImportFindOnly b path") auto
next
  case (6 b path name d es ep s)
  then show ?case by (auto intro: same_but_pkgs_trans)
qed simp_all

lemma same_but_files_refl [simp]: "same_but_files s s"
  by (simp add: same_but_files_def)

lemma same_but_files_trans: "same_but_files s t \<Longrightarrow> same_but_files t u \<Longrightarrow> same_but_files s u"
  unfolding same_but_files_def by (elim conjE exE) simp

lemma same_but_files_logf [simp]: "same_but_files s (logf m s)"
  by (simp add: same_but_files_def logf_def)

lemma same_but_files_write [simp]: "same_but_files s (writeFile path f s)"
  by (auto simp: writeFile_def same_but_files_def logf_def split: srcfile.splits bool.splits)

lemma same_but_files_print [simp]: "same_but_files s (s\<lparr>stdout := stdout s @ l\<rparr>)"
  by (simp add: same_but_files_def)

lemma changeVersion_keeps: "changeVersion path s = (r, s') \<Longrightarrow> same_but_files s s'"
proof (cases "files s path")
  case Unreadable
  assume "changeVersion path s = (r, s')"
  with Unreadable show ?thesis by (auto simp: changeVersion_def)
next
  case (Source f e cr)
  assume a: "changeVersion path s = (r, s')"
  let ?s1 = "if e then logf (CannotParse path) s else s"
  have s1: "same_but_files s ?s1" by simp
  show ?thesis
  proof (cases "fixImports ?s1 (ImportSpecs f) False")
    case (Inl x)
    with a Source have "s' = ?s1" by (simp add: changeVersion_def Let_def)
    with s1 show ?thesis by simp
  next
    case (Inr y)
    obtain vs ch where y: "y = (vs, ch)" by (cases y)
    show ?thesis
    proof (cases ch)
      case False
      with a Source Inr y have "s' = ?s1" by (simp add: changeVersion_def Let_def)
      with s1 show ?thesis by simp
    next
      case True
      with a Source Inr y have "s' = writeFile path (f\<lparr>ImportSpecs := vs\<rparr>) ?s1"
        by (simp add: changeVersion_def Let_def)
      then show ?thesis using same_but_files_trans[OF s1 same_but_files_write] by simp
    qed
  qed
qed

lemma changeFiles_keeps: "changeFiles fs ch s = (r, s') \<Longrightarrow> same_but_files s s'"
proof (induction fs arbitrary: ch s)
  case Nil
  then show ?case by simp
next
  case (Cons f0 fs)
  obtain r1 s1 where c: "changeVersion f0 s = (r1, s1)" by (cases "changeVersion f0 s")
  have k: "same_but_files s s1" using c by (rule changeVersion_keeps)
  show ?case
  proof (cases r1)
    case (Inl x)
    with Cons.prems c have "s' = s1" by simp
    with k show ?thesis by simp
  next
    case (Inr x)
    with Cons.prems c have "changeFiles fs (x \<or> ch) s1 = (r, s')" by simp
    from Cons.IH[OF this] k show ?thesis by (rule same_but_files_trans[rotated])
  qed
qed

lemma rewriteAll_keeps: "rewriteAll ps s = (r, s') \<Longrightarrow> same_but_files s s'"
proof (induction ps arbitrary: s)
  case Nil
  then show ?case by simp
next
  case (Cons path ps)
  show ?case
  proof (cases "editPkgs s path")
    case None
    with Cons show ?thesis by simp
  next
    case (Some ep)
    show ?thesis
    proof (cases "needsEdit ep")
      case False
      with Cons Some show ?thesis by simp
    next
      case True
      obtain r1 s1 where c: "changeFiles (goFiles ep) False s = (r1, s1)"
        by (cases "changeFiles (goFiles ep) False s")
      have k: "same_but_files s s1" using c by (rule changeFiles_keeps)
      show ?thesis
      proof (cases r1)
        case (Inl x)
        with Cons.prems Some True c have "s' = s1" by simp
        with k show ?thesis by simp
      next
        case (Inr ch)
        let ?t = "if ch then s1\<lparr>stdout := stdout s1 @ [path]\<rparr> else s1"
        from Cons.prems Some True c Inr have "rewriteAll ps ?t = (r, s')" by simp
        from Cons.IH[OF this] have "same_but_files ?t s'" .
        moreover have "same_but_files s1 ?t" by simp
        ultimately show ?thesis using k same_but_files_trans by blast
      qed
    qed
  qed
qed

lemma checkAll_checks: "checkAll b n ps s = Some s' \<Longrightarrow> checks b s s'"
proof (induction ps arbitrary: s)
  case Nil
  then show ?case by (simp add: checks_refl)
next
  case (Cons p ps)
  then obtain t where t: "checkPackage b n p s = Some t" and r: "checkAll b n ps t = Some s'"
    by (auto split: option.splits)
  from checkPackage_checks[OF t] Cons.IH[OF r] show ?case by (rule checks_trans)
qed

lemma checkAll_once:
  "import_graph b \<Longrightarrow> checkAll b n ps s = Some s' \<Longrightarrow> once s \<Longrightarrow> once s'"
proof (induction ps arbitrary: s)
  case Nil
  then show ?case by simp
next
  case (Cons p ps)
  then obtain t where t: "checkPackage b n p s = Some t" and r: "checkAll b n ps t = Some s'"
    by (auto split: option.splits)
  from checkPackage_once[OF Cons.prems(1) t Cons.prems(3)] Cons.IH[OF Cons.prems(1) r] show ?case
    by blast
qed








lemmas ex_eval = main_def ex_env_def ex_build_def ex_pkg_def ex_disk_def init_def Join_def
  HasSuffix_def HasPrefix_def logf_def changeVersion_def writeFile_def match_slash_version_def
  isDigit_def Let_def




subsection \<open>The dependency check of the revision with pathPat\<close>

lemma checkPackage_pp_rel:
  assumes R_refl: "\<And>s. R s s"
    and R_trans: "\<And>s t u. R s t \<Longrightarrow> R t u \<Longrightarrow> R s u"
    and R_err: "\<And>b s path pkg e. G b \<Longrightarrow> path \<notin> checked s \<Longrightarrow> Import b path ''.'' = (pkg, Some e) \<Longrightarrow>
        R s (if e = NoGoError
             then s\<lparr>imported := imported s @ [path], checked := insert (ImportPath pkg) (checked s)\<rparr>
             else logf (CannotImport path)
                    (s\<lparr>imported := imported s @ [path], checked := insert (ImportPath pkg) (checked s)\<rparr>))"
    and R_pkg: "\<And>b n s path pkg s'. G b \<Longrightarrow> path \<notin> checked s \<Longrightarrow> Import b path ''.'' = (pkg, None) \<Longrightarrow>
        checkImports_pp b n path (Imports pkg)
          (s\<lparr>imported := imported s @ [path], checked := insert (ImportPath pkg) (checked s)\<rparr>) = Some s' \<Longrightarrow>
        R (s\<lparr>imported := imported s @ [path], checked := insert (ImportPath pkg) (checked s)\<rparr>) s' \<Longrightarrow>
        R s s'"
    and R_fail: "\<And>s path impPath. fixPath s impPath \<noteq> impPath \<Longrightarrow> editPkgs s path = None \<Longrightarrow>
        R s (logf (Uses path impPath) (s\<lparr>failed := True\<rparr>))"
    and R_edit: "\<And>s path ep. editPkgs s path = Some ep \<Longrightarrow>
        R s (s\<lparr>editPkgs := (editPkgs s)(path \<mapsto> ep\<lparr>needsEdit := True\<rparr>)\<rparr>)"
  shows "checkPackage_pp b n path s = Some s' \<Longrightarrow> G b \<Longrightarrow> R s s'"
    and "checkImports_pp b n path imps s = Some s' \<Longrightarrow> G b \<Longrightarrow> R s s'"
proof (induction b n path s and b n path imps s arbitrary: s' and s'
       rule: checkPackage_pp_checkImports_pp.induct)
  case (1 b path s)
  then show ?case by simp
next
  case (2 b n path s)
  show ?case
  proof (cases "path = ''C'' \<or> path \<in> checked s")
    case True
    with "2.prems" show ?thesis by (auto simp: R_refl split: if_splits)
  next
    case False
    then have notC: "path \<noteq> ''C''" and nc: "path \<notin> checked s" by simp_all
    obtain pkg err where imp: "Import b path ''.'' = (pkg, err)" by (cases "Import b path ''.''")
    let ?s1 = "s\<lparr>imported := imported s @ [path], checked := insert (ImportPath pkg) (checked s)\<rparr>"
    show ?thesis
    proof (cases err)
      case None
      with "2.prems" notC nc imp have r: "checkImports_pp b n path (Imports pkg) ?s1 = Some s'"
        by (simp add: Let_def)
      from "2.IH"[OF notC nc imp[symmetric] refl None r "2.prems"(2)] have "R ?s1 s'" .
      with R_pkg[OF "2.prems"(2) nc imp[unfolded None] r] show ?thesis .
    next
      case (Some e)
      with "2.prems" notC nc imp have "s' = (if e = NoGoError then ?s1 else logf (CannotImport path) ?s1)"
        by (simp add: Let_def)
      then show ?thesis using R_err[OF "2.prems"(2) nc imp[unfolded Some]] by simp
    qed
  qed
next
  case (3 b n path s)
  then show ?case by (simp add: R_refl)
next
  case (4 b n path impPath imps s)
  show ?case
  proof (cases "fixPath s impPath \<noteq> impPath")
    case True
    show ?thesis
    proof (cases "editPkgs s path")
      case None
      let ?t = "logf (Uses path impPath) (s\<lparr>failed := True\<rparr>)"
      from "4.prems" True None have r: "checkImports_pp b n path imps ?t = Some s'" by simp
      have "R s ?t" using R_fail[OF True None] .
      with "4.IH"(1)[OF True None r "4.prems"(2)] show ?thesis by (rule R_trans[rotated])
    next
      case (Some ep)
      let ?t = "s\<lparr>editPkgs := (editPkgs s)(path \<mapsto> ep\<lparr>needsEdit := True\<rparr>)\<rparr>"
      from "4.prems" True Some obtain u where
        u: "checkPackage_pp b n (fixPath s impPath) ?t = Some u"
        and r: "checkImports_pp b n path imps u = Some s'"
        by (auto split: option.splits)
      have "R s ?t" using Some by (rule R_edit)
      with "4.IH"(2)[OF True Some u "4.prems"(2)] have "R s u" by (rule R_trans[rotated])
      with "4.IH"(3)[OF True Some u r "4.prems"(2)] show ?thesis by (rule R_trans[rotated])
    qed
  next
    case False
    from "4.prems" False obtain u where
      u: "checkPackage_pp b n impPath s = Some u" and r: "checkImports_pp b n path imps u = Some s'"
      by (auto split: option.splits)
    from "4.IH"(4)[OF False u "4.prems"(2)] "4.IH"(5)[OF False u r "4.prems"(2)] show ?thesis
      by (rule R_trans)
  qed
qed

lemma checkPackage_pp_extends:
  "checkPackage_pp b n path s = Some s' \<Longrightarrow> extends s s'"
  "checkImports_pp b n path imps s = Some s' \<Longrightarrow> extends s s'"
proof -
  show "checkPackage_pp b n path s = Some s' \<Longrightarrow> extends s s'"
    by (rule checkPackage_pp_rel(1)[where R = extends and G = "\<lambda>b. True"])
       (auto intro: extends_trans extends_import extends_failed extends_needsEdit
          extends_trans[OF extends_import extends_logf] extends_trans[OF extends_failed extends_logf])
  show "checkImports_pp b n path imps s = Some s' \<Longrightarrow> extends s s'"
    by (rule checkPackage_pp_rel(2)[where R = extends and G = "\<lambda>b. True"])
       (auto intro: extends_trans extends_import extends_failed extends_needsEdit
          extends_trans[OF extends_import extends_logf] extends_trans[OF extends_failed extends_logf])
qed

lemma checkPackage_pp_once:
  assumes g: "import_graph b"
  shows "checkPackage_pp b n path s = Some s' \<Longrightarrow> once s \<Longrightarrow> once s'"
proof -
  have "checkPackage_pp b n path s = Some s' \<Longrightarrow> import_graph b \<Longrightarrow> (once s \<longrightarrow> once s')"
  proof (rule checkPackage_pp_rel(1)[where R = "\<lambda>s s'. once s \<longrightarrow> once s'" and G = import_graph])
    fix b and s :: ctxt and path and pkg :: bpkg and e
    assume "import_graph b" "path \<notin> checked s" "Import b path ''.'' = (pkg, Some e)"
    then have "ImportPath pkg = path" by (auto simp: import_graph_def dest: spec[of _ path])
    then show "once s \<longrightarrow> once (if e = NoGoError
             then s\<lparr>imported := imported s @ [path], checked := insert (ImportPath pkg) (checked s)\<rparr>
             else logf (CannotImport path)
                    (s\<lparr>imported := imported s @ [path], checked := insert (ImportPath pkg) (checked s)\<rparr>))"
      using \<open>path \<notin> checked s\<close> by (auto simp: once_def logf_def)
  next
    fix b n and s s' :: ctxt and path and pkg :: bpkg
    assume "import_graph b" "path \<notin> checked s" "Import b path ''.'' = (pkg, None)"
      and r: "once (s\<lparr>imported := imported s @ [path], checked := insert (ImportPath pkg) (checked s)\<rparr>) \<longrightarrow> once s'"
    then have "ImportPath pkg = path" by (auto simp: import_graph_def dest: spec[of _ path])
    then show "once s \<longrightarrow> once s'" using r \<open>path \<notin> checked s\<close> by (auto simp: once_def)
  qed (auto simp: once_def logf_def)
  then show "checkPackage_pp b n path s = Some s' \<Longrightarrow> once s \<Longrightarrow> once s'" using g by blast
qed

lemma checkImports_pp_terminates:
  assumes fin: "finite (importable b)"
    and IH: "\<And>path s. card (importable b - checked s) < n \<Longrightarrow> \<exists>s'. checkPackage_pp b n path s = Some s'"
  shows "card (importable b - checked s) < n \<Longrightarrow> \<exists>s'. checkImports_pp b n path imps s = Some s'"
proof (induction imps arbitrary: s)
  case Nil
  then show ?case by simp
next
  case (Cons impPath imps)
  have step: "\<And>t p. extends s t \<Longrightarrow> \<exists>s'. (case checkPackage_pp b n p t of None \<Rightarrow> None
                | Some u \<Rightarrow> checkImports_pp b n path imps u) = Some s'"
  proof -
    fix t p
    assume e: "extends s t"
    have c: "card (importable b - checked t) < n"
      using unvisited_mono[OF fin e] Cons.prems by simp
    from IH[OF c] obtain u where u: "checkPackage_pp b n p t = Some u" by blast
    have "card (importable b - checked u) < n"
      using unvisited_mono[OF fin checkPackage_pp_extends(1)[OF u]] c by simp
    from Cons.IH[OF this] u show "\<exists>s'. (case checkPackage_pp b n p t of None \<Rightarrow> None
                | Some u \<Rightarrow> checkImports_pp b n path imps u) = Some s'" by simp
  qed
  show ?case
  proof (cases "fixPath s impPath \<noteq> impPath")
    case True
    show ?thesis
    proof (cases "editPkgs s path")
      case None
      have "checked (logf (Uses path impPath) (s\<lparr>failed := True\<rparr>)) = checked s"
        by (simp add: logf_def)
      then have "card (importable b - checked (logf (Uses path impPath) (s\<lparr>failed := True\<rparr>))) < n"
        using Cons.prems by simp
      from Cons.IH[OF this] show ?thesis using True None by simp
    next
      case (Some ep)
      from step[OF extends_needsEdit[OF Some], of "fixPath s impPath"] show ?thesis
        using True Some by simp
    qed
  next
    case False
    from step[OF extends_refl, of impPath] show ?thesis using False by auto
  qed
qed

lemma checkPackage_pp_terminates:
  assumes g: "import_graph b"
  shows "card (importable b - checked s) < n \<Longrightarrow> \<exists>s'. checkPackage_pp b n path s = Some s'"
proof (induction n arbitrary: path s)
  case 0
  then show ?case by simp
next
  case (Suc n)
  have fin: "finite (importable b)" using g by (simp add: import_graph_def)
  show ?case
  proof (cases "path = ''C'' \<or> path \<in> checked s")
    case True
    then show ?thesis by auto
  next
    case False
    then have notC: "path \<noteq> ''C''" and nc: "path \<notin> checked s" by simp_all
    obtain pkg err where imp: "Import b path ''.'' = (pkg, err)" by (cases "Import b path ''.''")
    have ip: "ImportPath pkg = path" using g imp by (auto simp: import_graph_def dest: spec[of _ path])
    let ?s1 = "s\<lparr>imported := imported s @ [path], checked := insert (ImportPath pkg) (checked s)\<rparr>"
    show ?thesis
    proof (cases err)
      case (Some e)
      then show ?thesis using notC nc imp by (simp add: Let_def)
    next
      case None
      then have pin: "path \<in> importable b - checked s" using imp nc by (simp add: importable_def)
      have eq: "importable b - checked ?s1 = (importable b - checked s) - {path}"
        using ip by auto
      have "card ((importable b - checked s) - {path}) < card (importable b - checked s)"
        by (rule card_Diff1_less) (use fin pin in auto)
      then have "card (importable b - checked ?s1) < card (importable b - checked s)"
        by (simp only: eq)
      then have "card (importable b - checked ?s1) < n" using Suc.prems by simp
      from checkImports_pp_terminates[OF fin Suc.IH this, of path "Imports pkg"]
      show ?thesis using notC nc imp None by (simp add: Let_def)
    qed
  qed
qed

lemma checkPackage_pp_fuel:
  "checkPackage_pp b n path s = Some s' \<Longrightarrow> n \<le> m \<Longrightarrow> checkPackage_pp b m path s = Some s'"
  "checkImports_pp b n path imps s = Some s' \<Longrightarrow> n \<le> m \<Longrightarrow> checkImports_pp b m path imps s = Some s'"
proof (induction b n path s and b n path imps s arbitrary: s' m and s' m
       rule: checkPackage_pp_checkImports_pp.induct)
  case (1 b path s)
  then show ?case by simp
next
  case (2 b n path s)
  from "2.prems"(2) obtain m' where m: "m = Suc m'" and le: "n \<le> m'" by (cases m) auto
  show ?case
  proof (cases "path = ''C'' \<or> path \<in> checked s")
    case True
    with "2.prems" m show ?thesis by (auto split: if_splits)
  next
    case False
    then have notC: "path \<noteq> ''C''" and nc: "path \<notin> checked s" by simp_all
    obtain pkg err where imp: "Import b path ''.'' = (pkg, err)" by (cases "Import b path ''.''")
    show ?thesis
    proof (cases err)
      case None
      with "2.prems" notC nc imp have r: "checkImports_pp b n path (Imports pkg)
          (s\<lparr>imported := imported s @ [path], checked := insert (ImportPath pkg) (checked s)\<rparr>) = Some s'"
        by (simp add: Let_def)
      from "2.IH"[OF notC nc imp[symmetric] refl None r le] show ?thesis
        using notC nc imp None m by (simp add: Let_def)
    next
      case (Some e)
      with "2.prems" notC nc imp m show ?thesis by (simp add: Let_def)
    qed
  qed
next
  case (3 b n path s)
  then show ?case by simp
next
  case (4 b n path impPath imps s)
  show ?case
  proof (cases "fixPath s impPath \<noteq> impPath")
    case True
    show ?thesis
    proof (cases "editPkgs s path")
      case None
      let ?t = "logf (Uses path impPath) (s\<lparr>failed := True\<rparr>)"
      from "4.prems" True None have r: "checkImports_pp b n path imps ?t = Some s'" by simp
      from "4.IH"(1)[OF True None r "4.prems"(2)] show ?thesis using True None by simp
    next
      case (Some ep)
      let ?t = "s\<lparr>editPkgs := (editPkgs s)(path \<mapsto> ep\<lparr>needsEdit := True\<rparr>)\<rparr>"
      from "4.prems" True Some obtain u where
        u: "checkPackage_pp b n (fixPath s impPath) ?t = Some u"
        and r: "checkImports_pp b n path imps u = Some s'"
        by (auto split: option.splits)
      from "4.IH"(2)[OF True Some u "4.prems"(2)] "4.IH"(3)[OF True Some u r "4.prems"(2)]
      show ?thesis using True Some by simp
    qed
  next
    case False
    from "4.prems" False obtain u where
      u: "checkPackage_pp b n impPath s = Some u" and r: "checkImports_pp b n path imps u = Some s'"
      by (auto split: option.splits)
    from "4.IH"(4)[OF False u "4.prems"(2)] "4.IH"(5)[OF False u r "4.prems"(2)]
    show ?thesis using False by auto
  qed
qed

text \<open>
  Claim C7. On a finite import graph, cyclic or not, \<^verbatim>\<open>checkPackage\<close> of govers.go
  and of the revision with \<^verbatim>\<open>pathPat\<close> returns, with the same state for every
  amount of fuel above the number of packages not yet checked; if no path was
  imported twice before the call, none is after it; and a call on a path recorded in
  \<^verbatim>\<open>checked\<close> returns the state it was given, without importing anything.
\<close>

theorem checkPackage_memoized:
  assumes g: "import_graph b" and o: "once s"
  shows "(\<exists>s'. (\<forall>n. card (importable b - checked s) < n \<longrightarrow> checkPackage b n path s = Some s')
              \<and> once s' \<and> (path \<in> checked s \<longrightarrow> s' = s))
       \<and> (\<exists>s'. (\<forall>n. card (importable b - checked s) < n \<longrightarrow> checkPackage_pp b n path s = Some s')
              \<and> once s' \<and> (path \<in> checked s \<longrightarrow> s' = s))"
proof
  let ?N = "Suc (card (importable b - checked s))"
  from checkPackage_terminates[OF g, of s ?N path] obtain s' where
    r: "checkPackage b ?N path s = Some s'" by auto
  have "\<forall>n. card (importable b - checked s) < n \<longrightarrow> checkPackage b n path s = Some s'"
    using checkPackage_fuel(1)[OF r] by (simp add: Suc_le_eq)
  moreover have "once s'" using checkPackage_once[OF g r o] .
  moreover have "path \<in> checked s \<longrightarrow> s' = s" using r by auto
  ultimately show "\<exists>s'. (\<forall>n. card (importable b - checked s) < n \<longrightarrow> checkPackage b n path s = Some s')
              \<and> once s' \<and> (path \<in> checked s \<longrightarrow> s' = s)" by blast
next
  let ?N = "Suc (card (importable b - checked s))"
  from checkPackage_pp_terminates[OF g, of s ?N path] obtain s' where
    r: "checkPackage_pp b ?N path s = Some s'" by auto
  have "\<forall>n. card (importable b - checked s) < n \<longrightarrow> checkPackage_pp b n path s = Some s'"
    using checkPackage_pp_fuel(1)[OF r] by (simp add: Suc_le_eq)
  moreover have "once s'" using checkPackage_pp_once[OF g r o] .
  moreover have "path \<in> checked s \<longrightarrow> s' = s" using r by (auto split: if_splits)
  ultimately show "\<exists>s'. (\<forall>n. card (importable b - checked s) < n \<longrightarrow> checkPackage_pp b n path s = Some s')
              \<and> once s' \<and> (path \<in> checked s \<longrightarrow> s' = s)" by blast
qed

lemma ex_cycle_graph: "import_graph ex_cycle \<and> card (importable ex_cycle) < 3"
proof -
  have sub: "importable ex_cycle \<subseteq> {''p'', ''q''}"
    by (auto simp: importable_def ex_cycle_def ex_pkg_def split: if_splits)
  then have fin: "finite (importable ex_cycle)" by (rule finite_subset) simp
  have "\<forall>p. ImportPath (fst (Import ex_cycle p ''.'')) = p"
    by (simp add: ex_cycle_def ex_pkg_def)
  with fin have g: "import_graph ex_cycle" by (simp add: import_graph_def)
  from sub have "card (importable ex_cycle) \<le> card {''p'', ''q''}"
    by (rule card_mono[rotated]) simp
  also have "\<dots> \<le> 2" by (simp add: card_insert_if)
  finally show ?thesis using g by simp
qed

theorem checkPackage_memoized_witness:
  "(\<exists>s'. checkPackage ex_cycle 3 ''p'' ex_ctxt = Some s' \<and> distinct (imported s'))
   \<and> (\<exists>s'. checkPackage_pp ex_cycle 3 ''p'' ex_ctxt = Some s' \<and> distinct (imported s'))"
proof -
  have o: "once ex_ctxt" by (simp add: once_def ex_ctxt_def init_def)
  have "card (importable ex_cycle - checked ex_ctxt) \<le> card (importable ex_cycle)"
    by (rule card_mono) (use ex_cycle_graph in \<open>auto simp: import_graph_def\<close>)
  then have c: "card (importable ex_cycle - checked ex_ctxt) < 3" using ex_cycle_graph by simp
  from checkPackage_memoized[OF conjunct1[OF ex_cycle_graph] o, of "''p''"] c show ?thesis
    unfolding once_def by blast
qed

lemma ex_cycle_trace:
  "map_option imported (checkPackage ex_cycle 3 ''p'' ex_ctxt) = Some [''p'', ''q'']"
  by (simp add: ex_cycle_def ex_pkg_def ex_ctxt_def init_def ex_env_def Let_def numeral_nat
      match_slash_version_def isDigit_def)

subsection \<open>A failed check and the loop that rewrites\<close>

lemmas ex_eval_pv = main_pv_def ex_env_dry_def ex_build_tomb_def ex_pkg_def ex_disk_tomb_def init_def
  Join_def HasSuffix_def HasPrefix_def logf_def changeVersion_pv_def writeFile_def fixPath_def
  pat_eval

lemma checkPackage_pv_files:
  "checkPackage_pv b nd n path dir s = Some s' \<Longrightarrow> files s' = files s \<and> stdout s' = stdout s"
  "checkImports_pv b nd n path pkg imps s = Some s' \<Longrightarrow> files s' = files s \<and> stdout s' = stdout s"
proof (induction b nd n path dir s and b nd n path pkg imps s arbitrary: s' and s'
       rule: checkPackage_pv_checkImports_pv.induct)
  case (1 b nodeps path fromDir s)
  then show ?case by simp
next
  case (2 b nodeps n path fromDir s)
  then show ?case
    by (auto simp: logf_def Let_def split: if_splits prod.splits option.splits)
next
  case (3 b nodeps n path pkg s)
  then show ?case by simp
next
  case (4 b nodeps n path pkg impPath imps s)
  obtain impPkg err' where imp: "Import b impPath (Dir pkg) = (impPkg, err')"
    by (cases "Import b impPath (Dir pkg)")
  let ?s1 = "s\<lparr>imported := imported s @ [impPath]\<rparr>"
  show ?case
  proof (cases "fixPath ?s1 (ImportPath impPkg) \<noteq> ImportPath impPkg")
    case True
    show ?thesis
    proof (cases "editPkgs ?s1 path")
      case None
      with "4.prems" imp True have
        "checkImports_pv b nodeps n path pkg imps
           (logf (Inconsistent (ImportPath pkg) (ImportPath impPkg)) (?s1\<lparr>failed := True\<rparr>)) = Some s'"
        by (simp add: Let_def)
      from "4.IH"(1)[OF imp[symmetric] refl True None this] show ?thesis by (simp add: logf_def)
    next
      case (Some ep)
      let ?s2 = "?s1\<lparr>editPkgs := (editPkgs ?s1)(path \<mapsto> ep\<lparr>needsEdit := True\<rparr>)\<rparr>"
      show ?thesis
      proof (cases nodeps)
        case nd: True
        with "4.prems" imp True Some have "checkImports_pv b nodeps n path pkg imps ?s2 = Some s'"
          by (simp add: Let_def)
        from "4.IH"(2)[OF imp[symmetric] refl True Some refl nd this] show ?thesis by simp
      next
        case nd: False
        with "4.prems" imp True Some obtain t where
          t: "checkPackage_pv b nodeps n (fixPath ?s1 (ImportPath impPkg)) (Dir impPkg) ?s2 = Some t"
          and r: "checkImports_pv b nodeps n path pkg imps t = Some s'"
          by (auto simp: Let_def split: option.splits)
        from "4.IH"(3)[OF imp[symmetric] refl True Some refl nd t]
          "4.IH"(4)[OF imp[symmetric] refl True Some refl nd t r]
        show ?thesis by simp
      qed
    qed
  next
    case False
    show ?thesis
    proof (cases nodeps)
      case nd: True
      with "4.prems" imp False have "checkImports_pv b nodeps n path pkg imps ?s1 = Some s'"
        by (simp add: Let_def)
      from "4.IH"(5)[OF imp[symmetric] refl False nd this] show ?thesis by simp
    next
      case nd: False
      with "4.prems" imp False obtain t where
        t: "checkPackage_pv b nodeps n impPath (Dir impPkg) ?s1 = Some t"
        and r: "checkImports_pv b nodeps n path pkg imps t = Some s'"
        by (auto simp: Let_def split: option.splits)
      from "4.IH"(6)[OF imp[symmetric] refl False nd t] "4.IH"(7)[OF imp[symmetric] refl False nd t r]
      show ?thesis by simp
    qed
  qed
qed

lemma checkAll_pv_files:
  "checkAll_pv b nd n dir ps s = Some s' \<Longrightarrow> files s' = files s \<and> stdout s' = stdout s"
proof (induction ps arbitrary: s)
  case Nil
  then show ?case by simp
next
  case (Cons p ps)
  then obtain t where t: "checkPackage_pv b nd n p dir s = Some t"
    and r: "checkAll_pv b nd n dir ps t = Some s'"
    by (auto split: option.splits)
  from checkPackage_pv_files(1)[OF t] Cons.IH[OF r] show ?case by simp
qed

lemma changeVersion_pv_keeps: "changeVersion_pv dry path s = (r, s') \<Longrightarrow> same_but_files s s'"
proof (cases "files s path")
  case Unreadable
  assume "changeVersion_pv dry path s = (r, s')"
  with Unreadable show ?thesis by (auto simp: changeVersion_pv_def)
next
  case (Source f e cr)
  assume a: "changeVersion_pv dry path s = (r, s')"
  let ?s1 = "if e then logf (CannotParse path) s else s"
  have s1: "same_but_files s ?s1" by simp
  show ?thesis
  proof (cases "fixImports_pv ?s1 (ImportSpecs f) False")
    case (Inl x)
    with a Source have "s' = ?s1" by (simp add: changeVersion_pv_def Let_def)
    with s1 show ?thesis by simp
  next
    case (Inr y)
    obtain vs ch where y: "y = (vs, ch)" by (cases y)
    show ?thesis
    proof (cases "\<not> ch \<or> dry")
      case True
      with a Source Inr y have "s' = ?s1" by (simp add: changeVersion_pv_def Let_def)
      with s1 show ?thesis by simp
    next
      case False
      with a Source Inr y have "s' = writeFile path (f\<lparr>ImportSpecs := vs\<rparr>) ?s1"
        by (simp add: changeVersion_pv_def Let_def)
      then show ?thesis using same_but_files_trans[OF s1 same_but_files_write] by simp
    qed
  qed
qed

lemma changeFiles_pv_keeps: "changeFiles_pv dry fs ch s = (r, s') \<Longrightarrow> same_but_files s s'"
proof (induction fs arbitrary: ch s)
  case Nil
  then show ?case by simp
next
  case (Cons f0 fs)
  obtain r1 s1 where c: "changeVersion_pv dry f0 s = (r1, s1)" by (cases "changeVersion_pv dry f0 s")
  have k: "same_but_files s s1" using c by (rule changeVersion_pv_keeps)
  show ?case
  proof (cases r1)
    case (Inl x)
    with Cons.prems c have "s' = s1" by simp
    with k show ?thesis by simp
  next
    case (Inr x)
    with Cons.prems c have "changeFiles_pv dry fs (x \<or> ch) s1 = (r, s')" by simp
    from Cons.IH[OF this] k show ?thesis by (rule same_but_files_trans[rotated])
  qed
qed

lemma rewriteAll_pv_keeps: "rewriteAll_pv dry ps s = (r, s') \<Longrightarrow> same_but_files s s'"
proof (induction ps arbitrary: s)
  case Nil
  then show ?case by simp
next
  case (Cons path ps)
  show ?case
  proof (cases "editPkgs s path")
    case None
    with Cons show ?thesis by simp
  next
    case (Some ep)
    show ?thesis
    proof (cases "needsEdit ep")
      case False
      with Cons Some show ?thesis by simp
    next
      case True
      obtain r1 s1 where c: "changeFiles_pv dry (goFiles ep) False s = (r1, s1)"
        by (cases "changeFiles_pv dry (goFiles ep) False s")
      have k: "same_but_files s s1" using c by (rule changeFiles_pv_keeps)
      show ?thesis
      proof (cases r1)
        case (Inl x)
        with Cons.prems Some True c have "s' = s1" by simp
        with k show ?thesis by simp
      next
        case (Inr ch)
        let ?t = "if ch then s1\<lparr>stdout := stdout s1 @ [path]\<rparr> else s1"
        from Cons.prems Some True c Inr have "rewriteAll_pv dry ps ?t = (r, s')" by simp
        from Cons.IH[OF this] have "same_but_files ?t s'" .
        moreover have "same_but_files s1 ?t" by simp
        ultimately show ?thesis using k same_but_files_trans by blast
      qed
    qed
  qed
qed

text \<open>
  The two later revisions do what claim C2 says. The revision with \<^verbatim>\<open>pathPat\<close>
  stops in \<^verbatim>\<open>pathPat\<close>, before it walks or writes anything; the last revision
  leaves after the check when the check has failed.
\<close>

lemma main_pp_stops: "\<exists>t. main_pp e fuel = Some (2, t) \<and> files t = disk e \<and> stdout t = []"
proof (cases "args e")
  case Nil
  then show ?thesis by (simp add: main_pp_def logf_def init_def)
next
  case (Cons arg as)
  then show ?thesis
    by (cases as; cases "getwd e") (simp_all add: main_pp_def logf_def init_def pathPat_def)
qed

lemma main_pv_failed_no_write:
  assumes "main_pv e fuel = Some (code, s)" and "failed s"
  shows "files s = disk e"
proof (cases "\<exists>newPackage dir pat. args e = [newPackage] \<and> getwd e = Some dir
         \<and> (if match e \<noteq> [] then Compile e (''^('' @ match e @ '')'') else pathVersionPat newPackage) = Some pat")
  case False
  have "files s = files (init e)"
  proof (cases "args e")
    case Nil
    with assms show ?thesis by (auto simp: main_pv_def)
  next
    case (Cons arg as)
    show ?thesis
    proof (cases as)
      case (Cons a' as')
      with \<open>args e = arg # as\<close> assms show ?thesis by (auto simp: main_pv_def)
    next
      case Nil
      show ?thesis
      proof (cases "getwd e")
        case None
        with Nil \<open>args e = arg # as\<close> assms show ?thesis by (auto simp: main_pv_def logf_def)
      next
        case (Some dir)
        with False Nil \<open>args e = arg # as\<close> have
          "(if match e \<noteq> [] then Compile e (''^('' @ match e @ '')'') else pathVersionPat arg) = None"
          by (cases "(if match e \<noteq> [] then Compile e (''^('' @ match e @ '')'') else pathVersionPat arg)") auto
        with Some Nil \<open>args e = arg # as\<close> assms show ?thesis
          by (auto simp: main_pv_def logf_def)
      qed
    qed
  qed
  then show ?thesis by (simp add: init_def)
next
  case True
  then obtain newPackage dir pat where a: "args e = [newPackage]" and d: "getwd e = Some dir"
    and p: "(if match e \<noteq> [] then Compile e (''^('' @ match e @ '')'') else pathVersionPat newPackage) = Some pat"
    by blast
  let ?s0 = "(init e)\<lparr>fixPackage := newPackage, fixPackagePat := pat\<rparr>"
  let ?s1 = "walkDir (build e) dir (tree e) ?s0"
  have f1: "files ?s1 = disk e" using walkDir_keeps(1)[of ?s0] by (simp add: same_but_pkgs_def init_def)
  from assms(1) a d p obtain s2 where
    s2: "checkAll_pv (build e) (noDependencies e) fuel dir (order1 e) ?s1 = Some s2"
    by (auto simp: main_pv_def Let_def split: option.splits)
  have f2: "files s2 = disk e" using checkAll_pv_files[OF s2] f1 by simp
  show ?thesis
  proof (cases "failed s2")
    case True
    with assms(1) a d p s2 have "s = s2" by (simp add: main_pv_def Let_def)
    with f2 show ?thesis by simp
  next
    case False
    obtain r s3 where s3: "rewriteAll_pv (noEdit e) (order2 e) s2 = (r, s3)"
      by (cases "rewriteAll_pv (noEdit e) (order2 e) s2")
    from assms(1) a d p s2 False s3 have "s = s3"
      by (auto simp: main_pv_def Let_def split: option.splits)
    with rewriteAll_pv_keeps[OF s3] False assms(2) show ?thesis by (simp add: same_but_files_def)
  qed
qed

text \<open>
  Claim C2 fails in govers.go, where the test of \<^verbatim>\<open>ctxt.failed\<close> between the check
  and the loop that rewrites is commented out. In the small run the dependency
  \<^verbatim>\<open>dep\<close> still imports \<^verbatim>\<open>x/v1/y\<close>: the check reports it and sets \<^verbatim>\<open>failed\<close>,
  the loop rewrites \<^verbatim>\<open>/w/a/f.go\<close> and prints the package all the same, and only
  then the program exits with status 1.
\<close>

theorem main_rewrites_after_failed_check:
  "case main ex_env 5 of
     Some (code, s) \<Rightarrow>
       code = 1 \<and> failed s \<and> stderr s = [Uses ''dep'' ''x/v1/y''] \<and> stdout s = [''m/a'']
       \<and> disk ex_env ''/w/a/f.go'' =
           Source \<lparr>ImportSpecs = [Quoted ''x/v1/y'', Quoted ''dep''], other = ''package a; F''\<rparr> False True
       \<and> files s ''/w/a/f.go'' =
           Source \<lparr>ImportSpecs = [Quoted ''x/v2/y'', Quoted ''dep''], other = ''package a; F''\<rparr> False True
   | None \<Rightarrow> False"
  by (simp add: ex_eval numeral_nat)

subsection \<open>walkDir\<close>

lemma walkDir_registers:
  "editPkgs (walkDir b path node s) = foldl (register b) (editPkgs s) (reached path node)"
  "walkEntries b path es ep s =
     (ep\<lparr>goFiles := goFiles ep @ go_files path es\<rparr>,
      snd (walkEntries b path es ep s))
   \<and> editPkgs (snd (walkEntries b path es ep s)) = foldl (register b) (editPkgs s) (reached_below path es)"
proof (induction b path node s and b path es ep s rule: walkDir_walkEntries.induct)
  case (1 b path s)
  then show ?case by (simp add: logf_def)
next
  case (2 b path s)
  then show ?case by (simp add: logf_def)
next
  case (3 b path entries s)
  then show ?case
    by (cases "walkEntries b path entries \<lparr>goFiles = [], needsEdit = False\<rparr> s")
       (auto simp: register_def split: option.splits)
next
  case (4 b path ep s)
  then show ?case by simp
next
  case (5 b path name es ep s)
  then show ?case by (simp add: prod_eq_iff)
next
  case (6 b path name d es ep s)
  then show ?case by (simp add: prod_eq_iff)
qed


lemma foldl_register:
  "foldl (register b) m ds ip =
     (if pkg_dirs b ip ds = [] then m ip
      else Some \<lparr>goFiles = go_files (fst (last (pkg_dirs b ip ds))) (snd (last (pkg_dirs b ip ds))),
                 needsEdit = False\<rparr>)"
proof (induction ds rule: rev_induct)
  case Nil
  then show ?case by (simp add: pkg_dirs_def)
next
  case (snoc x ds)
  show ?case
  proof (cases "ImportFindOnly b (fst x) = Some ip")
    case True
    then have "pkg_dirs b ip (ds @ [x]) = pkg_dirs b ip ds @ [x]" by (simp add: pkg_dirs_def)
    then show ?thesis using True by (simp add: register_def)
  next
    case False
    then have "pkg_dirs b ip (ds @ [x]) = pkg_dirs b ip ds" by (simp add: pkg_dirs_def)
    then show ?thesis using False snoc by (auto simp: register_def split: option.splits)
  qed
qed

lemma go_files_set:
  "set (go_files path es) = {Join path name | name. (name, FileNode) \<in> set es \<and> HasSuffix name ''.go''}"
  by (induction path es rule: go_files.induct) auto

text \<open>
  Claim C4, as amended. After the walk the entry of an import path in \<^verbatim>\<open>editPkgs\<close>
  is the one it had before if no reached directory resolves to that path;
  otherwise it is an entry, not marked as needing an edit, whose file list is that
  of the directory resolving to the path that the walk finishes last (a directory
  after its subdirectories): the paths of its entries that are not directories and
  whose names end in \<^verbatim>\<open>.go\<close>, in the order of the entries. So every reached
  directory that resolves to a package is registered; a directory below one that
  cannot be read, or below one whose name starts with a dot, is not reached.
\<close>

theorem walkDir_finds_packages:
  "editPkgs (walkDir b path node s) ip =
     (if pkg_dirs b ip (reached path node) = [] then editPkgs s ip
      else Some \<lparr>goFiles = go_files (fst (last (pkg_dirs b ip (reached path node))))
                              (snd (last (pkg_dirs b ip (reached path node)))),
                 needsEdit = False\<rparr>)"
  by (simp only: walkDir_registers(1) foldl_register)

lemmas ex_walk = ex_tree_def ex_find_def pkg_dirs_def Join_def HasPrefix_def HasSuffix_def

theorem walkDir_finds_packages_witness:
  "editPkgs (walkDir ex_find ''/w'' ex_tree ex_ctxt) ''m/a'' =
     Some \<lparr>goFiles = [''/w/a/f.go''], needsEdit = False\<rparr>"
  using walkDir_finds_packages[of ex_find "''/w''" ex_tree ex_ctxt "''m/a''"]
  by (simp add: ex_walk)

text \<open>
  Claim C4 as stated fails: the directory \<^verbatim>\<open>/w/.hid\<close> resolves to the package
  \<^verbatim>\<open>m/hid\<close> and the walk registers nothing for it; and the file list of \<^verbatim>\<open>m/a\<close> has
  no path for the entry \<^verbatim>\<open>d.go\<close>, a directory.
\<close>

theorem walkDir_skips_hidden_counterexample:
  "ImportFindOnly ex_find ''/w/.hid'' = Some ''m/hid''
   \<and> editPkgs (walkDir ex_find ''/w'' ex_tree ex_ctxt) ''m/hid'' = None
   \<and> editPkgs (walkDir ex_find ''/w'' ex_tree ex_ctxt) ''m/a'' =
       Some \<lparr>goFiles = [''/w/a/f.go''], needsEdit = False\<rparr>"
  by (simp add: ex_walk ex_ctxt_def init_def logf_def)

subsection \<open>What the loop that rewrites prints\<close>

lemma changeVersion_returns:
  "changeVersion path s = (Inr c, s') \<Longrightarrow> c = file_changes (matchesCanon s) (files s path)"
proof (cases "files s path")
  case Unreadable
  assume "changeVersion path s = (Inr c, s')"
  with Unreadable show ?thesis by (simp add: changeVersion_def)
next
  case (Source f e cr)
  assume a: "changeVersion path s = (Inr c, s')"
  from changeVersion_cases[OF Source] a Source show ?thesis
    by (auto split: if_splits)
qed

lemma changeVersion_other_files:
  "changeVersion path s = (r, s') \<Longrightarrow> q \<noteq> path \<Longrightarrow> files s' q = files s q"
proof (cases "files s path")
  case Unreadable
  assume "changeVersion path s = (r, s')"
  with Unreadable show ?thesis by (auto simp: changeVersion_def)
next
  case (Source f e cr)
  assume a: "changeVersion path s = (r, s')" and q: "q \<noteq> path"
  from changeVersion_cases[OF Source] a q show ?thesis
    by (auto split: if_splits)
qed

lemma matchesCanon_same: "fixPackageCanon s' = fixPackageCanon s \<Longrightarrow> matchesCanon s' = matchesCanon s"
proof
  fix v assume "fixPackageCanon s' = fixPackageCanon s"
  then show "matchesCanon s' v = matchesCanon s v" by (cases v) simp_all
qed

lemma changeFiles_returns:
  "distinct fs \<Longrightarrow> changeFiles fs ch s = (Inr c, s') \<Longrightarrow>
   c = (ch \<or> list_ex (\<lambda>f. file_changes (matchesCanon s) (files s f)) fs)
   \<and> (\<forall>q. q \<notin> set fs \<longrightarrow> files s' q = files s q)"
proof (induction fs arbitrary: ch s)
  case Nil
  then show ?case by simp
next
  case (Cons f0 fs)
  obtain r1 s1 where cv: "changeVersion f0 s = (r1, s1)" by (cases "changeVersion f0 s")
  with Cons.prems(2) obtain c0 where r1: "r1 = Inr c0" by (cases r1) auto
  from Cons.prems(2) cv r1 have rest: "changeFiles fs (c0 \<or> ch) s1 = (Inr c, s')" by simp
  have c0: "c0 = file_changes (matchesCanon s) (files s f0)"
    using changeVersion_returns cv r1 by blast
  have other: "\<And>q. q \<noteq> f0 \<Longrightarrow> files s1 q = files s q"
    using changeVersion_other_files[OF cv] by blast
  have m: "matchesCanon s1 = matchesCanon s"
    using changeVersion_keeps[OF cv] by (intro matchesCanon_same) (simp add: same_but_files_def)
  from Cons.prems(1) have d: "distinct fs" and n: "f0 \<notin> set fs" by simp_all
  from Cons.IH[OF d rest] have
    ih: "c = ((c0 \<or> ch) \<or> list_ex (\<lambda>f. file_changes (matchesCanon s1) (files s1 f)) fs)"
    and ih2: "\<forall>q. q \<notin> set fs \<longrightarrow> files s' q = files s1 q" by simp_all
  have "list_ex (\<lambda>f. file_changes (matchesCanon s1) (files s1 f)) fs
      = list_ex (\<lambda>f. file_changes (matchesCanon s) (files s f)) fs"
    unfolding list_ex_iff m using other n by (metis)
  with ih c0 have "c = (ch \<or> list_ex (\<lambda>f. file_changes (matchesCanon s) (files s f)) (f0 # fs))"
    by auto
  moreover have "\<forall>q. q \<notin> set (f0 # fs) \<longrightarrow> files s' q = files s q"
    using ih2 other by simp
  ultimately show ?case by blast
qed

lemma edited_files_same: "editPkgs s' = editPkgs s \<Longrightarrow> edited_files s' ps = edited_files s ps"
  by (simp add: edited_files_def)

lemma pkg_changes_cong:
  assumes "editPkgs s' = editPkgs s"
    and "\<And>ep f. editPkgs s p = Some ep \<Longrightarrow> needsEdit ep \<Longrightarrow> f \<in> set (goFiles ep) \<Longrightarrow> fs' f = fs f"
  shows "pkg_changes m s' fs' p = pkg_changes m s fs p"
  using assms by (auto simp: pkg_changes_def list_ex_iff split: option.splits)

lemma edited_files_mem:
  "p \<in> set ps \<Longrightarrow> editPkgs s p = Some ep \<Longrightarrow> needsEdit ep \<Longrightarrow> f \<in> set (goFiles ep) \<Longrightarrow>
   f \<in> set (edited_files s ps)"
  by (force simp: edited_files_def)

lemma changeVersion_stdout: "changeVersion path s = (r, s') \<Longrightarrow> stdout s' = stdout s"
  by (auto simp: changeVersion_def writeFile_def logf_def Let_def
      split: srcfile.splits sum.splits prod.splits if_splits bool.splits)

lemma changeFiles_stdout: "changeFiles fs ch s = (r, s') \<Longrightarrow> stdout s' = stdout s"
proof (induction fs arbitrary: ch s)
  case Nil
  then show ?case by simp
next
  case (Cons f0 fs)
  obtain r1 s1 where cv: "changeVersion f0 s = (r1, s1)" by (cases "changeVersion f0 s")
  show ?case
  proof (cases r1)
    case (Inl x)
    with Cons.prems cv show ?thesis using changeVersion_stdout[OF cv] by simp
  next
    case (Inr c0)
    with Cons.prems cv have "changeFiles fs (c0 \<or> ch) s1 = (r, s')" by simp
    from Cons.IH[OF this] changeVersion_stdout[OF cv] show ?thesis by simp
  qed
qed

lemma rewriteAll_prints:
  "distinct (edited_files s ps) \<Longrightarrow> rewriteAll ps s = (None, s') \<Longrightarrow>
   stdout s' = stdout s @ filter (pkg_changes (matchesCanon s) s (files s)) ps"
proof (induction ps arbitrary: s)
  case Nil
  then show ?case by simp
next
  case (Cons p ps)
  show ?case
  proof (cases "editPkgs s p")
    case None
    with Cons.prems have "distinct (edited_files s ps)" "rewriteAll ps s = (None, s')"
      by (simp_all add: edited_files_def)
    from Cons.IH[OF this] None show ?thesis by (simp add: pkg_changes_def)
  next
    case (Some ep)
    show ?thesis
    proof (cases "needsEdit ep")
      case False
      with Cons.prems Some have "distinct (edited_files s ps)" "rewriteAll ps s = (None, s')"
        by (simp_all add: edited_files_def)
      from Cons.IH[OF this] Some False show ?thesis by (simp add: pkg_changes_def)
    next
      case True
      from Cons.prems(1) Some True have dg: "distinct (goFiles ep)"
        and dr: "distinct (edited_files s ps)"
        and dj: "set (goFiles ep) \<inter> set (edited_files s ps) = {}"
        by (simp_all add: edited_files_def)
      obtain r1 s1 where cf: "changeFiles (goFiles ep) False s = (r1, s1)"
        by (cases "changeFiles (goFiles ep) False s")
      with Cons.prems(2) Some True obtain c where r1: "r1 = Inr c" by (cases r1) auto
      let ?t = "if c then s1\<lparr>stdout := stdout s1 @ [p]\<rparr> else s1"
      from Cons.prems(2) Some True cf r1 have rest: "rewriteAll ps ?t = (None, s')" by simp
      from changeFiles_returns[OF dg cf[unfolded r1]] have
        c: "c = list_ex (\<lambda>f. file_changes (matchesCanon s) (files s f)) (goFiles ep)"
        and other: "\<forall>q. q \<notin> set (goFiles ep) \<longrightarrow> files s1 q = files s q" by simp_all
      have k: "same_but_files s s1" using cf by (rule changeFiles_keeps)
      have e1: "editPkgs ?t = editPkgs s" using k by (simp add: same_but_files_def)
      have e2: "fixPackageCanon ?t = fixPackageCanon s" using k by (simp add: same_but_files_def)
      have e3: "stdout ?t = stdout s @ (if c then [p] else [])"
        using changeFiles_stdout[OF cf] by simp
      have e4: "files ?t = files s1" by simp
      have dt: "distinct (edited_files ?t ps)" using dr edited_files_same[OF e1] by simp
      from Cons.IH[OF dt rest] have
        ih: "stdout s' = stdout ?t @ filter (pkg_changes (matchesCanon ?t) ?t (files ?t)) ps" .
      have m: "matchesCanon ?t = matchesCanon s" using e2 by (rule matchesCanon_same)
      have "pkg_changes (matchesCanon s) ?t (files ?t) q = pkg_changes (matchesCanon s) s (files s) q"
        if q: "q \<in> set ps" for q
      proof (rule pkg_changes_cong[OF e1])
        fix eq f
        assume "editPkgs s q = Some eq" "needsEdit eq" "f \<in> set (goFiles eq)"
        then have "f \<in> set (edited_files s ps)" using q by (rule edited_files_mem[rotated])
        with dj have "f \<notin> set (goFiles ep)" by blast
        with other e4 show "files ?t f = files s f" by simp
      qed
      then have f: "filter (pkg_changes (matchesCanon ?t) ?t (files ?t)) ps
          = filter (pkg_changes (matchesCanon s) s (files s)) ps"
        unfolding m by (intro filter_cong) simp_all
      have pc: "pkg_changes (matchesCanon s) s (files s) p = c"
        using Some True c by (simp add: pkg_changes_def)
      show ?thesis unfolding ih f e3 using pc by simp
    qed
  qed
qed

lemma fixImports_pv_ok:
  "list_all wellQuoted vs \<Longrightarrow>
   fixImports_pv s vs ch = Inr (map (fixImport_pv s) vs, ch \<or> list_ex (matches_pv s) vs)"
proof (induction vs arbitrary: ch)
  case Nil
  then show ?case by simp
next
  case (Cons v vs)
  then obtain p where v: "v = Quoted p" by (cases v) auto
  from Cons have ih: "\<And>c. fixImports_pv s vs c = Inr (map (fixImport_pv s) vs, c \<or> list_ex (matches_pv s) vs)"
    by simp
  show ?case by (simp add: v ih)
qed

lemma fixImports_pv_panic:
  "\<not> list_all wellQuoted vs \<Longrightarrow> \<exists>x. fixImports_pv s vs ch = Inl x"
proof (induction vs arbitrary: ch)
  case Nil
  then show ?case by simp
next
  case (Cons v vs)
  show ?case
  proof (cases v)
    case (Malformed t)
    then show ?thesis by simp
  next
    case (Quoted p)
    with Cons.prems have "\<not> list_all wellQuoted vs" by simp
    then have "\<And>c. \<exists>x. fixImports_pv s vs c = Inl x" using Cons.IH by blast
    then obtain x y where "fixImports_pv s vs True = Inl x" "fixImports_pv s vs ch = Inl y" by metis
    then show ?thesis using Quoted by simp
  qed
qed

lemma fixPath_same:
  "fixPackage s' = fixPackage s \<Longrightarrow> fixPackagePat s' = fixPackagePat s \<Longrightarrow> fixPath s' = fixPath s"
proof
  fix x
  assume "fixPackage s' = fixPackage s" "fixPackagePat s' = fixPackagePat s"
  then show "fixPath s' x = fixPath s x"
    by (cases "fixPackagePat s x") (simp_all add: fixPath_def)
qed

lemma matches_pv_same:
  "fixPackage s' = fixPackage s \<Longrightarrow> fixPackagePat s' = fixPackagePat s \<Longrightarrow> matches_pv s' = matches_pv s"
proof
  fix v assume "fixPackage s' = fixPackage s" "fixPackagePat s' = fixPackagePat s"
  then have "fixPath s' = fixPath s" by (rule fixPath_same)
  then show "matches_pv s' v = matches_pv s v" by (cases v) simp_all
qed

lemma fixImports_pv_fields:
  "fixPackage s' = fixPackage s \<Longrightarrow> fixPackagePat s' = fixPackagePat s \<Longrightarrow>
   fixImports_pv s' vs ch = fixImports_pv s vs ch"
proof (induction vs arbitrary: ch)
  case Nil
  then show ?case by simp
next
  case (Cons v vs)
  from Cons.prems have "fixPath s' = fixPath s" by (rule fixPath_same)
  with Cons show ?case by (cases v) (simp_all split: sum.splits)
qed

lemma changeVersion_pv_cases:
  "files s path = Source f e cr \<Longrightarrow>
   (case changeVersion_pv dry path s of
      (r, s') \<Rightarrow>
        if \<not> list_all wellQuoted (ImportSpecs f) then
          (\<exists>x. r = Inl x) \<and> files s' = files s
        else
          r = Inr (list_ex (matches_pv s) (ImportSpecs f))
            \<and> files s' =
                (if list_ex (matches_pv s) (ImportSpecs f) \<and> \<not> dry \<and> cr then
                   (files s)(path := Source (f\<lparr>ImportSpecs := map (fixImport_pv s) (ImportSpecs f)\<rparr>) False True)
                 else files s))"
proof -
  assume src: "files s path = Source f e cr"
  let ?s1 = "if e then logf (CannotParse path) s else s"
  have fld: "fixPackage ?s1 = fixPackage s" "fixPackagePat ?s1 = fixPackagePat s"
    by (simp_all add: logf_def)
  have fi: "fixImports_pv ?s1 (ImportSpecs f) False = fixImports_pv s (ImportSpecs f) False"
    using fld by (rule fixImports_pv_fields)
  show ?thesis
  proof (cases "list_all wellQuoted (ImportSpecs f)")
    case False
    then obtain x where "fixImports_pv s (ImportSpecs f) False = Inl x"
      using fixImports_pv_panic by blast
    then show ?thesis using src False fi by (simp add: changeVersion_pv_def Let_def)
  next
    case True
    have r: "fixImports_pv ?s1 (ImportSpecs f) False =
        Inr (map (fixImport_pv s) (ImportSpecs f), list_ex (matches_pv s) (ImportSpecs f))"
      using fixImports_pv_ok[OF True, of s False] fi by simp
    show ?thesis using src True r
      by (cases cr) (auto simp: changeVersion_pv_def Let_def writeFile_def)
  qed
qed

lemma changeVersion_pv_returns:
  "changeVersion_pv dry path s = (Inr c, s') \<Longrightarrow> c = file_changes (matches_pv s) (files s path)"
proof (cases "files s path")
  case Unreadable
  assume "changeVersion_pv dry path s = (Inr c, s')"
  with Unreadable show ?thesis by (simp add: changeVersion_pv_def)
next
  case (Source f e cr)
  assume a: "changeVersion_pv dry path s = (Inr c, s')"
  from changeVersion_pv_cases[OF Source, of dry] a Source show ?thesis
    by (auto split: if_splits)
qed

lemma changeVersion_pv_other_files:
  "changeVersion_pv dry path s = (r, s') \<Longrightarrow> q \<noteq> path \<or> dry \<Longrightarrow> files s' q = files s q"
proof (cases "files s path")
  case Unreadable
  assume "changeVersion_pv dry path s = (r, s')"
  with Unreadable show ?thesis by (auto simp: changeVersion_pv_def)
next
  case (Source f e cr)
  assume a: "changeVersion_pv dry path s = (r, s')" and q: "q \<noteq> path \<or> dry"
  from changeVersion_pv_cases[OF Source, of dry] a q show ?thesis
    by (auto split: if_splits)
qed

lemma changeFiles_pv_returns:
  "distinct fs \<Longrightarrow> changeFiles_pv dry fs ch s = (Inr c, s') \<Longrightarrow>
   c = (ch \<or> list_ex (\<lambda>f. file_changes (matches_pv s) (files s f)) fs)
   \<and> (\<forall>q. q \<notin> set fs \<longrightarrow> files s' q = files s q)"
proof (induction fs arbitrary: ch s)
  case Nil
  then show ?case by simp
next
  case (Cons f0 fs)
  obtain r1 s1 where cv: "changeVersion_pv dry f0 s = (r1, s1)" by (cases "changeVersion_pv dry f0 s")
  with Cons.prems(2) obtain c0 where r1: "r1 = Inr c0" by (cases r1) auto
  from Cons.prems(2) cv r1 have rest: "changeFiles_pv dry fs (c0 \<or> ch) s1 = (Inr c, s')" by simp
  have c0: "c0 = file_changes (matches_pv s) (files s f0)"
    using changeVersion_pv_returns cv r1 by blast
  have other: "\<And>q. q \<noteq> f0 \<Longrightarrow> files s1 q = files s q"
    using changeVersion_pv_other_files[OF cv] by blast
  have m: "matches_pv s1 = matches_pv s"
    using changeVersion_pv_keeps[OF cv] by (intro matches_pv_same) (simp_all add: same_but_files_def)
  from Cons.prems(1) have d: "distinct fs" and n: "f0 \<notin> set fs" by simp_all
  from Cons.IH[OF d rest] have
    ih: "c = ((c0 \<or> ch) \<or> list_ex (\<lambda>f. file_changes (matches_pv s1) (files s1 f)) fs)"
    and ih2: "\<forall>q. q \<notin> set fs \<longrightarrow> files s' q = files s1 q" by simp_all
  have "list_ex (\<lambda>f. file_changes (matches_pv s1) (files s1 f)) fs
      = list_ex (\<lambda>f. file_changes (matches_pv s) (files s f)) fs"
    unfolding list_ex_iff m using other n by (metis)
  with ih c0 have "c = (ch \<or> list_ex (\<lambda>f. file_changes (matches_pv s) (files s f)) (f0 # fs))"
    by auto
  moreover have "\<forall>q. q \<notin> set (f0 # fs) \<longrightarrow> files s' q = files s q"
    using ih2 other by simp
  ultimately show ?case by blast
qed

lemma changeVersion_pv_stdout: "changeVersion_pv dry path s = (r, s') \<Longrightarrow> stdout s' = stdout s"
  by (auto simp: changeVersion_pv_def writeFile_def logf_def Let_def
      split: srcfile.splits sum.splits prod.splits if_splits bool.splits)

lemma changeFiles_pv_stdout: "changeFiles_pv dry fs ch s = (r, s') \<Longrightarrow> stdout s' = stdout s"
proof (induction fs arbitrary: ch s)
  case Nil
  then show ?case by simp
next
  case (Cons f0 fs)
  obtain r1 s1 where cv: "changeVersion_pv dry f0 s = (r1, s1)" by (cases "changeVersion_pv dry f0 s")
  show ?case
  proof (cases r1)
    case (Inl x)
    with Cons.prems cv show ?thesis using changeVersion_pv_stdout[OF cv] by simp
  next
    case (Inr c0)
    with Cons.prems cv have "changeFiles_pv dry fs (c0 \<or> ch) s1 = (r, s')" by simp
    from Cons.IH[OF this] changeVersion_pv_stdout[OF cv] show ?thesis by simp
  qed
qed

lemma rewriteAll_pv_prints:
  "distinct (edited_files s ps) \<Longrightarrow> rewriteAll_pv dry ps s = (None, s') \<Longrightarrow>
   stdout s' = stdout s @ filter (pkg_changes (matches_pv s) s (files s)) ps"
proof (induction ps arbitrary: s)
  case Nil
  then show ?case by simp
next
  case (Cons p ps)
  show ?case
  proof (cases "editPkgs s p")
    case None
    with Cons.prems have "distinct (edited_files s ps)" "rewriteAll_pv dry ps s = (None, s')"
      by (simp_all add: edited_files_def)
    from Cons.IH[OF this] None show ?thesis by (simp add: pkg_changes_def)
  next
    case (Some ep)
    show ?thesis
    proof (cases "needsEdit ep")
      case False
      with Cons.prems Some have "distinct (edited_files s ps)" "rewriteAll_pv dry ps s = (None, s')"
        by (simp_all add: edited_files_def)
      from Cons.IH[OF this] Some False show ?thesis by (simp add: pkg_changes_def)
    next
      case True
      from Cons.prems(1) Some True have dg: "distinct (goFiles ep)"
        and dr: "distinct (edited_files s ps)"
        and dj: "set (goFiles ep) \<inter> set (edited_files s ps) = {}"
        by (simp_all add: edited_files_def)
      obtain r1 s1 where cf: "changeFiles_pv dry (goFiles ep) False s = (r1, s1)"
        by (cases "changeFiles_pv dry (goFiles ep) False s")
      with Cons.prems(2) Some True obtain c where r1: "r1 = Inr c" by (cases r1) auto
      let ?t = "if c then s1\<lparr>stdout := stdout s1 @ [p]\<rparr> else s1"
      from Cons.prems(2) Some True cf r1 have rest: "rewriteAll_pv dry ps ?t = (None, s')" by simp
      from changeFiles_pv_returns[OF dg cf[unfolded r1]] have
        c: "c = list_ex (\<lambda>f. file_changes (matches_pv s) (files s f)) (goFiles ep)"
        and other: "\<forall>q. q \<notin> set (goFiles ep) \<longrightarrow> files s1 q = files s q" by simp_all
      have k: "same_but_files s s1" using cf by (rule changeFiles_pv_keeps)
      have e1: "editPkgs ?t = editPkgs s" using k by (simp add: same_but_files_def)
      have e2: "fixPackage ?t = fixPackage s" "fixPackagePat ?t = fixPackagePat s"
        using k by (simp_all add: same_but_files_def)
      have e3: "stdout ?t = stdout s @ (if c then [p] else [])"
        using changeFiles_pv_stdout[OF cf] by simp
      have e4: "files ?t = files s1" by simp
      have dt: "distinct (edited_files ?t ps)" using dr edited_files_same[OF e1] by simp
      from Cons.IH[OF dt rest] have
        ih: "stdout s' = stdout ?t @ filter (pkg_changes (matches_pv ?t) ?t (files ?t)) ps" .
      have m: "matches_pv ?t = matches_pv s" using e2 by (rule matches_pv_same)
      have "pkg_changes (matches_pv s) ?t (files ?t) q = pkg_changes (matches_pv s) s (files s) q"
        if q: "q \<in> set ps" for q
      proof (rule pkg_changes_cong[OF e1])
        fix eq f
        assume "editPkgs s q = Some eq" "needsEdit eq" "f \<in> set (goFiles eq)"
        then have "f \<in> set (edited_files s ps)" using q by (rule edited_files_mem[rotated])
        with dj have "f \<notin> set (goFiles ep)" by blast
        with other e4 show "files ?t f = files s f" by simp
      qed
      then have f: "filter (pkg_changes (matches_pv ?t) ?t (files ?t)) ps
          = filter (pkg_changes (matches_pv s) s (files s)) ps"
        unfolding m by (intro filter_cong) simp_all
      have pc: "pkg_changes (matches_pv s) s (files s) p = c"
        using Some True c by (simp add: pkg_changes_def)
      show ?thesis unfolding ih f e3 using pc by simp
    qed
  qed
qed

lemma changeFiles_pv_dry: "changeFiles_pv True fs ch s = (r, s') \<Longrightarrow> files s' = files s"
proof (induction fs arbitrary: ch s)
  case Nil
  then show ?case by simp
next
  case (Cons f0 fs)
  obtain r1 s1 where cv: "changeVersion_pv True f0 s = (r1, s1)" by (cases "changeVersion_pv True f0 s")
  have f: "files s1 = files s" using changeVersion_pv_other_files[OF cv] by auto
  show ?case
  proof (cases r1)
    case (Inl x)
    with Cons.prems cv f show ?thesis by simp
  next
    case (Inr c0)
    with Cons.prems cv have "changeFiles_pv True fs (c0 \<or> ch) s1 = (r, s')" by simp
    from Cons.IH[OF this] f show ?thesis by simp
  qed
qed

lemma rewriteAll_pv_dry: "rewriteAll_pv True ps s = (r, s') \<Longrightarrow> files s' = files s"
proof (induction ps arbitrary: s)
  case Nil
  then show ?case by simp
next
  case (Cons p ps)
  show ?case
  proof (cases "editPkgs s p")
    case None
    with Cons show ?thesis by simp
  next
    case (Some ep)
    show ?thesis
    proof (cases "needsEdit ep")
      case False
      with Cons Some show ?thesis by simp
    next
      case True
      obtain r1 s1 where cf: "changeFiles_pv True (goFiles ep) False s = (r1, s1)"
        by (cases "changeFiles_pv True (goFiles ep) False s")
      have f: "files s1 = files s" using cf by (rule changeFiles_pv_dry)
      show ?thesis
      proof (cases r1)
        case (Inl x)
        with Cons.prems Some True cf f show ?thesis by simp
      next
        case (Inr c)
        let ?t = "if c then s1\<lparr>stdout := stdout s1 @ [p]\<rparr> else s1"
        from Cons.prems Some True cf Inr have "rewriteAll_pv True ps ?t = (r, s')" by simp
        from Cons.IH[OF this] f show ?thesis by simp
      qed
    qed
  qed
qed

lemma main_prints:
  assumes m: "main e fuel = Some (code, s)" and c: "code \<noteq> 2"
    and d: "distinct (edited_files s (order2 e))"
  shows "stdout s = filter (pkg_changes (matchesCanon s) s (disk e)) (order2 e)"
proof -
  from m c obtain arg where a: "args e = [arg]"
    by (cases "args e"; cases "tl (args e)") (auto simp: main_def)
  from m c a obtain dir where g: "getwd e = Some dir"
    by (cases "getwd e") (auto simp: main_def)
  let ?s0 = "(init e)\<lparr>fixPackage := arg, fixPackageCanon := canonicalPath arg\<rparr>"
  let ?s1 = "walkDir (build e) dir (tree e) ?s0"
  from m a g obtain s2 where s2: "checkAll (build e) fuel (order1 e) ?s1 = Some s2"
    by (auto simp: main_def Let_def split: option.splits)
  obtain r s3 where s3: "rewriteAll (order2 e) s2 = (r, s3)" by (cases "rewriteAll (order2 e) s2")
  from m a g s2 s3 c have r: "r = None" and s: "s = s3"
    by (auto simp: main_def Let_def split: option.splits if_splits)
  have k1: "same_but_pkgs ?s0 ?s1" by (rule walkDir_keeps)
  have k2: "extends ?s1 s2" using checkAll_checks[OF s2] by (simp add: checks_def)
  have f2: "files s2 = disk e" "stdout s2 = []"
    using k1 k2 by (simp_all add: same_but_pkgs_def extends_def init_def)
  have k3: "same_but_files s2 s3" using s3 by (rule rewriteAll_keeps)
  then have e3: "editPkgs s3 = editPkgs s2" "fixPackageCanon s3 = fixPackageCanon s2"
    by (simp_all add: same_but_files_def)
  have d2: "distinct (edited_files s2 (order2 e))" using d s edited_files_same[OF e3(1)] by simp
  from rewriteAll_prints[OF d2 s3[unfolded r]] f2 have
    "stdout s3 = filter (pkg_changes (matchesCanon s2) s2 (disk e)) (order2 e)" by simp
  moreover have "matchesCanon s3 = matchesCanon s2" using e3(2) by (rule matchesCanon_same)
  moreover have "pkg_changes mm s3 fs = pkg_changes mm s2 fs" for mm fs
    using e3(1) by (intro ext) (simp add: pkg_changes_def)
  ultimately show ?thesis using s by simp
qed

lemma main_pv_prints:
  assumes m: "main_pv e fuel = Some (code, s)"
  shows "(code = 0 \<and> distinct (edited_files s (order2 e)) \<longrightarrow>
            stdout s = filter (pkg_changes (matches_pv s) s (disk e)) (order2 e)
            \<and> (noEdit e \<longrightarrow> files s = disk e))
         \<and> (code = 1 \<longrightarrow> stdout s = [])"
proof (cases "code = 2")
  case True
  then show ?thesis by simp
next
  case c: False
  from m c obtain newPackage where a: "args e = [newPackage]"
    by (cases "args e"; cases "tl (args e)") (auto simp: main_pv_def)
  from m c a obtain dir where g: "getwd e = Some dir"
    by (cases "getwd e") (auto simp: main_pv_def)
  from m c a g obtain pat where
    p: "(if match e \<noteq> [] then Compile e (''^('' @ match e @ '')'') else pathVersionPat newPackage) = Some pat"
    by (cases "(if match e \<noteq> [] then Compile e (''^('' @ match e @ '')'') else pathVersionPat newPackage)")
       (auto simp: main_pv_def)
  let ?s0 = "(init e)\<lparr>fixPackage := newPackage, fixPackagePat := pat\<rparr>"
  let ?s1 = "walkDir (build e) dir (tree e) ?s0"
  from m a g p obtain s2 where
    s2: "checkAll_pv (build e) (noDependencies e) fuel dir (order1 e) ?s1 = Some s2"
    by (auto simp: main_pv_def Let_def split: option.splits)
  have k1: "same_but_pkgs ?s0 ?s1" by (rule walkDir_keeps)
  have f2: "files s2 = disk e" "stdout s2 = []"
    using k1 checkAll_pv_files[OF s2] by (simp_all add: same_but_pkgs_def init_def)
  show ?thesis
  proof (cases "failed s2")
    case True
    with m a g p s2 have "code = 1" "s = s2" by (simp_all add: main_pv_def Let_def)
    with f2 show ?thesis by simp
  next
    case False
    obtain r s3 where s3: "rewriteAll_pv (noEdit e) (order2 e) s2 = (r, s3)"
      by (cases "rewriteAll_pv (noEdit e) (order2 e) s2")
    have k3: "same_but_files s2 s3" using s3 by (rule rewriteAll_pv_keeps)
    then have e3: "editPkgs s3 = editPkgs s2" "fixPackage s3 = fixPackage s2"
      "fixPackagePat s3 = fixPackagePat s2" "failed s3 = failed s2"
      by (simp_all add: same_but_files_def)
    from m a g p s2 s3 c False e3(4) have r: "r = None" and s: "s = s3" and code: "code = 0"
      by (auto simp: main_pv_def Let_def split: option.splits if_splits)
    have "stdout s = filter (pkg_changes (matches_pv s) s (disk e)) (order2 e)"
      if d: "distinct (edited_files s (order2 e))"
    proof -
      have d2: "distinct (edited_files s2 (order2 e))" using d s edited_files_same[OF e3(1)] by simp
      from rewriteAll_pv_prints[OF d2 s3[unfolded r]] f2 have
        "stdout s3 = filter (pkg_changes (matches_pv s2) s2 (disk e)) (order2 e)" by simp
      moreover have "matches_pv s3 = matches_pv s2" using e3(2,3) by (rule matches_pv_same)
      moreover have "pkg_changes mm s3 fs = pkg_changes mm s2 fs" for mm fs
        using e3(1) by (intro ext) (simp add: pkg_changes_def)
      ultimately show ?thesis using s by simp
    qed
    moreover have "files s = disk e" if "noEdit e"
      using rewriteAll_pv_dry[of "order2 e" s2 r s3] s3 that f2 s by simp
    ultimately show ?thesis using code by simp
  qed
qed

text \<open>
  Claim C10, as amended. A run of govers.go that ends without a panic, and a run
  of the last revision that ends with status 0, print, in the order of the
  traversal, exactly the import paths of the packages that are marked as needing an
  edit and have a source file with an import that \<^verbatim>\<open>changeVersion\<close> rewrites,
  provided no file is listed twice among the packages marked; with \<^verbatim>\<open>-n\<close> the
  same paths are printed and no file is changed. A run of the last revision that
  ends with status 1, and every run of the revision with \<^verbatim>\<open>pathPat\<close>, print
  nothing.
\<close>

theorem main_prints_packages_with_edits:
  "(main e fuel = Some (code, s) \<and> code \<noteq> 2 \<and> distinct (edited_files s (order2 e)) \<longrightarrow>
      stdout s = filter (pkg_changes (matchesCanon s) s (disk e)) (order2 e))
   \<and> (main_pp e fuel = Some (code, s) \<longrightarrow> stdout s = [])
   \<and> (main_pv e fuel = Some (code, s) \<and> code = 0 \<and> distinct (edited_files s (order2 e)) \<longrightarrow>
      stdout s = filter (pkg_changes (matches_pv s) s (disk e)) (order2 e)
      \<and> (noEdit e \<longrightarrow> files s = disk e))
   \<and> (main_pv e fuel = Some (code, s) \<and> code = 1 \<longrightarrow> stdout s = [])"
proof (intro conjI impI)
  assume "main e fuel = Some (code, s) \<and> code \<noteq> 2 \<and> distinct (edited_files s (order2 e))"
  then show "stdout s = filter (pkg_changes (matchesCanon s) s (disk e)) (order2 e)"
    using main_prints by blast
next
  assume "main_pp e fuel = Some (code, s)"
  then show "stdout s = []" using main_pp_stops[of e fuel] by auto
next
  assume a: "main_pv e fuel = Some (code, s) \<and> code = 0 \<and> distinct (edited_files s (order2 e))"
  then show "stdout s = filter (pkg_changes (matches_pv s) s (disk e)) (order2 e)"
    using main_pv_prints by blast
  assume "noEdit e"
  then show "files s = disk e" using a main_pv_prints by blast
next
  assume "main_pv e fuel = Some (code, s) \<and> code = 1"
  then show "stdout s = []" using main_pv_prints by blast
qed

theorem main_prints_packages_with_edits_witness:
  "\<exists>s. main_pv (ex_env_dry\<lparr>noEdit := False\<rparr>) 5 = Some (0, s) \<and> stdout s = [''m/a'']"
proof -
  let ?e = "ex_env_dry\<lparr>noEdit := False\<rparr>"
  have run: "case main_pv ?e 5 of
     Some (code, s) \<Rightarrow> code = 0 \<and> editPkgs s ''m/a'' = Some \<lparr>goFiles = [''/w/a/f.go''], needsEdit = True\<rparr>
        \<and> fixPackage s = ''gopkg.in/tomb.v3''
        \<and> fixPackagePat s ''gopkg.in/tomb.v2'' = Some 16
   | None \<Rightarrow> False"
    by (simp add: ex_eval_pv numeral_nat)
  then obtain s where m: "main_pv ?e 5 = Some (0, s)"
    and ep: "editPkgs s ''m/a'' = Some \<lparr>goFiles = [''/w/a/f.go''], needsEdit = True\<rparr>"
    and fp: "fixPackage s = ''gopkg.in/tomb.v3''" "fixPackagePat s ''gopkg.in/tomb.v2'' = Some 16"
    by (auto split: option.splits)
  have o: "order2 ?e = [''m/a'']" "disk ?e = ex_disk_tomb" by (simp_all add: ex_env_dry_def)
  have d: "distinct (edited_files s (order2 ?e))" using ep o by (simp add: edited_files_def)
  from main_prints_packages_with_edits[of ?e 5 0 s] m d have
    "stdout s = filter (pkg_changes (matches_pv s) s (disk ?e)) (order2 ?e)" by blast
  also have "\<dots> = [''m/a'']"
    using ep fp o by (simp add: pkg_changes_def ex_disk_tomb_def fixPath_def)
  finally show ?thesis using m by blast
qed

text \<open>
  Claim C10 as stated fails: run with \<^verbatim>\<open>-n\<close>, the last revision prints the package
  \<^verbatim>\<open>m/a\<close> and changes no file.
\<close>

theorem main_prints_without_change_counterexample:
  "case main_pv ex_env_dry 5 of
     Some (code, s) \<Rightarrow> code = 0 \<and> stdout s = [''m/a''] \<and> files s = disk ex_env_dry
   | None \<Rightarrow> False"
  by (simp add: ex_eval_pv numeral_nat)

end
